theory Spec2Isabelle
  imports Main "HOL-Library.AList"
begin

unbundle bit_operations_syntax

section \<open>JavaScript values used by the scorer\<close>

text \<open>
  A JavaScript string is a sequence of UTF-16 code units, here numbers (below \<open>2^16\<close>; no
  function depends on the bound). The rank tokens are ASCII, the four suit symbols are single
  code units of the Basic Multilingual Plane (U+2660, U+2665, U+2666, U+2663), so
  \<open>slice(-1)\<close> cuts exactly one suit symbol off a card token.
\<close>

type_synonym jstring = "nat list"

definition str :: "string \<Rightarrow> jstring" where
  "str s = map of_char s"

text \<open>
  Numbers: every number the scorer computes is an integer or NaN (the result of
  \<open>parseInt\<close> on a string without digits). Integers are kept exact; JavaScript's doubles
  agree with them below \<open>2^53\<close>, far above anything the 13 ranks produce. The negative
  zero is not told apart from zero; no operation used here distinguishes them.
\<close>

datatype number = Num int | NaN

fun num_add :: "number \<Rightarrow> number \<Rightarrow> number" where
  "num_add (Num a) (Num b) = Num (a + b)"
| "num_add _ _ = NaN"

fun num_sub :: "number \<Rightarrow> number \<Rightarrow> number" where
  "num_sub (Num a) (Num b) = Num (a - b)"
| "num_sub _ _ = NaN"

text \<open>The operator \<open>===\<close> on numbers: NaN is not equal to anything, itself included.\<close>

fun strict_eq :: "number \<Rightarrow> number \<Rightarrow> bool" where
  "strict_eq (Num a) (Num b) = (a = b)"
| "strict_eq _ _ = False"

text \<open>Reading a property of \<open>null\<close> or \<open>undefined\<close> throws a TypeError.\<close>

datatype js_error = TypeError

text \<open>
  \<open>xs.slice(start, end)\<close> on strings and arrays: a negative index counts from the end,
  both indices are clamped to the length, \<open>end\<close> may be omitted.
\<close>

definition slice :: "'a list \<Rightarrow> int \<Rightarrow> int option \<Rightarrow> 'a list" where
  "slice xs start end =
     (let len = int (length xs);
          from = (if start < 0 then max (len + start) 0 else min start len);
          to = (case end of None \<Rightarrow> len
                | Some e \<Rightarrow> if e < 0 then max (len + e) 0 else min e len)
      in take (nat (to - from)) (drop (nat from) xs))"

text \<open>\<open>xs[i]\<close> on an array of optional values: out of range is \<open>undefined\<close>, absent like \<open>null\<close>.\<close>

definition js_index :: "'a option list \<Rightarrow> nat \<Rightarrow> 'a option" where
  "js_index xs i = (if i < length xs then xs ! i else None)"

text \<open>
  \<open>1 << n\<close>: the shift count is taken modulo 32 and the result is a signed 32-bit integer.
\<close>

definition shl1 :: "nat \<Rightarrow> int" where
  "shl1 n = (if n mod 32 = 31 then - (2 ^ 31) else 2 ^ (n mod 32))"

text \<open>
  \<open>parseInt(string)\<close> without a radix, after ECMAScript: leading white space is skipped, a
  sign is read, a prefix \<open>0x\<close> selects radix 16, and the longest prefix of digits is
  converted; without any digit the result is NaN.
\<close>

definition StrWhiteSpaceChar :: "nat \<Rightarrow> bool" where
  "StrWhiteSpaceChar u \<longleftrightarrow>
     u \<in> set ([0x9, 0xA, 0xB, 0xC, 0xD, 0x20, 0xA0, 0x1680] @ [0x2000 ..< 0x200B]
              @ [0x2028, 0x2029, 0x202F, 0x205F, 0x3000, 0xFEFF])"

definition radix_digit :: "nat \<Rightarrow> nat \<Rightarrow> nat option" where
  "radix_digit R u =
     (let d = (if 0x30 \<le> u \<and> u \<le> 0x39 then Some (u - 0x30)
               else if 0x61 \<le> u \<and> u \<le> 0x7A then Some (u - 0x61 + 10)
               else if 0x41 \<le> u \<and> u \<le> 0x5A then Some (u - 0x41 + 10)
               else None)
      in case d of None \<Rightarrow> None | Some v \<Rightarrow> if v < R then Some v else None)"

definition parseInt :: "jstring \<Rightarrow> number" where
  "parseInt string =
     (let S = dropWhile StrWhiteSpaceChar string;
          sign = (if S \<noteq> [] \<and> hd S = 0x2D then - 1 else 1);
          S = (if S \<noteq> [] \<and> (hd S = 0x2B \<or> hd S = 0x2D) then tl S else S);
          hex = (2 \<le> length S \<and> (take 2 S = str ''0x'' \<or> take 2 S = str ''0X''));
          R = (if hex then 16 else 10);
          S = (if hex then drop 2 S else S);
          Z = takeWhile (\<lambda>u. radix_digit R u \<noteq> None) S
      in if Z = [] then NaN
         else Num (sign * int (foldl (\<lambda>a u. a * R + (case radix_digit R u of Some v \<Rightarrow> v | None \<Rightarrow> 0)) 0 Z)))"

text \<open>
  The own keys of an ordinary object are listed with the array indices first, in ascending
  numeric order, and then the other string keys in the order of their creation. An object is
  an association list in creation order (\<open>AList.update\<close> keeps the place of a key that is
  assigned again); \<open>index\<close> says which keys are array indices. The objects of the scorer
  start empty and their keys are ranks or numbers; none of the 13 ranks and no number is the
  name of a property that an object inherits, so a lookup finds own properties only.
\<close>

definition own_entries :: "('k \<Rightarrow> nat option) \<Rightarrow> ('k \<times> 'v) list \<Rightarrow> ('k \<times> 'v) list" where
  "own_entries index obj =
     sort_key (\<lambda>(k, v). case index k of Some n \<Rightarrow> n | None \<Rightarrow> 0) (filter (\<lambda>(k, v). index k \<noteq> None) obj)
     @ filter (\<lambda>(k, v). index k = None) obj"

text \<open>A string key is an array index if it is the canonical numeral of an integer below \<open>2^32 - 1\<close>.\<close>

definition string_index :: "jstring \<Rightarrow> nat option" where
  "string_index s =
     (let n = foldl (\<lambda>a u. a * 10 + (u - 0x30)) 0 s
      in if s \<noteq> [] \<and> list_all (\<lambda>u. 0x30 \<le> u \<and> u \<le> 0x39) s \<and> (hd s \<noteq> 0x30 \<or> length s = 1)
            \<and> n < 2 ^ 32 - 1
         then Some n else None)"

text \<open>
  A number used as a key is converted to its string; \<open>Object.keys(..).map(Number)\<close> converts
  it back. For the integers and NaN of this model the two conversions cancel, so such keys
  are kept as numbers. The key of a number is an array index if the number is an integer
  from 0 to \<open>2^32 - 2\<close>.
\<close>

definition number_index :: "number \<Rightarrow> nat option" where
  "number_index x = (case x of Num i \<Rightarrow> if 0 \<le> i \<and> i < 2 ^ 32 - 1 then Some (nat i) else None
                     | NaN \<Rightarrow> None)"

text \<open>
  \<open>xs.sort(comparefn)\<close>: the comparator's result decides, a NaN result counting as 0. The
  sort is stable, so with a consistent comparator every conforming implementation returns the
  same array, the one this insertion sort returns. (When a NaN is among the elements the
  comparator \<open>a - b\<close> is not consistent and ECMAScript leaves the order to the implementation.)
\<close>

definition SortCompare :: "(number \<Rightarrow> number \<Rightarrow> number) \<Rightarrow> number \<Rightarrow> number \<Rightarrow> int" where
  "SortCompare comparefn x y = (case comparefn x y of Num v \<Rightarrow> v | NaN \<Rightarrow> 0)"

fun js_insort :: "(number \<Rightarrow> number \<Rightarrow> number) \<Rightarrow> number \<Rightarrow> number list \<Rightarrow> number list" where
  "js_insort comparefn x [] = [x]"
| "js_insort comparefn x (y # ys) =
     (if SortCompare comparefn x y \<le> 0 then x # y # ys else y # js_insort comparefn x ys)"

definition js_sort :: "(number \<Rightarrow> number \<Rightarrow> number) \<Rightarrow> number list \<Rightarrow> number list" where
  "js_sort comparefn xs = foldr (js_insort comparefn) xs []"

text \<open>
  \<open>xs.every(p)\<close> and \<open>xs.find(p)\<close> stop at the first element that decides the result; a
  callback that throws ends the iteration with its error.
\<close>

fun every :: "('a \<Rightarrow> js_error + bool) \<Rightarrow> 'a list \<Rightarrow> js_error + bool" where
  "every p [] = Inr True"
| "every p (x # xs) =
     (case p x of Inl e \<Rightarrow> Inl e | Inr b \<Rightarrow> if b then every p xs else Inr False)"

fun find_first :: "('a \<Rightarrow> js_error + bool) \<Rightarrow> 'a list \<Rightarrow> js_error + 'a option" where
  "find_first p [] = Inr None"
| "find_first p (x # xs) =
     (case p x of Inl e \<Rightarrow> Inl e | Inr b \<Rightarrow> if b then Inr (Some x) else find_first p xs)"


section \<open>Cards\<close>

text \<open>Card data structure: \<open>{ rank: 'A'|'2'|...|'K', suit: one of the four suit symbols }\<close>.\<close>

record card =
  rank :: jstring
  suit :: jstring

definition RANKS :: "jstring list" where
  "RANKS = [str ''A'', str ''2'', str ''3'', str ''4'', str ''5'', str ''6'', str ''7'',
            str ''8'', str ''9'', str ''10'', str ''J'', str ''Q'', str ''K'']"

definition spades :: jstring where "spades = [0x2660]"
definition hearts :: jstring where "hearts = [0x2665]"
definition diamonds :: jstring where "diamonds = [0x2666]"
definition clubs :: jstring where "clubs = [0x2663]"

definition SUITS :: "jstring list" where
  "SUITS = [spades, hearts, diamonds, clubs]"

definition DECK :: "card list" where
  "DECK = concat (map (\<lambda>rank. map (\<lambda>suit. \<lparr>rank = rank, suit = suit\<rparr>) SUITS) RANKS)"

text \<open>
  A slot of the hand holds a card or is empty (\<open>null\<close>); \<open>card.rank\<close> on an empty slot throws.
\<close>

definition getCardValue :: "card option \<Rightarrow> js_error + number" where
  "getCardValue crd =
     (case crd of None \<Rightarrow> Inl TypeError
      | Some c \<Rightarrow>
          if rank c = str ''A'' then Inr (Num 1)
          else if rank c \<in> set [str ''J'', str ''Q'', str ''K''] then Inr (Num 10)
          else Inr (parseInt (rank c)))"

definition parseCard :: "jstring option \<Rightarrow> card option" where
  "parseCard cardString =
     (case cardString of None \<Rightarrow> None
      | Some s \<Rightarrow>
          if s = [] then None
          else let suit = slice s (- 1) None;
                   rank = slice s 0 (Some (- 1))
               in if rank \<in> set RANKS \<and> suit \<in> set SUITS
                  then Some \<lparr>rank = rank, suit = suit\<rparr> else None)"

definition formatCard :: "card option \<Rightarrow> jstring" where
  "formatCard crd = (case crd of None \<Rightarrow> [] | Some c \<Rightarrow> rank c @ suit c)"


section \<open>The five rule evaluators\<close>

text \<open>Every result object has the field \<open>points\<close>; the evidence fields extend it.\<close>

record score =
  points :: int

subsection \<open>Fifteens\<close>

record fifteens_result = score +
  combinations :: "jstring list list"

text \<open>
  The inner loop over \<open>i\<close> for one \<open>mask\<close>: the cards whose bit is set are collected in
  \<open>combo\<close> and their values added up in \<open>sum\<close>.
\<close>

fun fifteens_combo ::
  "card option list \<Rightarrow> int \<Rightarrow> nat list \<Rightarrow> card option list \<times> number
     \<Rightarrow> js_error + card option list \<times> number" where
  "fifteens_combo cards msk [] (combo, sm) = Inr (combo, sm)"
| "fifteens_combo cards msk (i # is) (combo, sm) =
     (if msk AND shl1 i \<noteq> 0 then
        (case getCardValue (js_index cards i) of
           Inl e \<Rightarrow> Inl e
         | Inr v \<Rightarrow> fifteens_combo cards msk is (combo @ [js_index cards i], num_add sm v))
      else fifteens_combo cards msk is (combo, sm))"

text \<open>The outer loop over the masks \<open>1, ..., (1 << n) - 1\<close>.\<close>

fun fifteens_masks ::
  "card option list \<Rightarrow> int list \<Rightarrow> fifteens_result \<Rightarrow> js_error + fifteens_result" where
  "fifteens_masks cards [] acc = Inr acc"
| "fifteens_masks cards (msk # masks) acc =
     (case fifteens_combo cards msk [0 ..< length cards] ([], Num 0) of
        Inl e \<Rightarrow> Inl e
      | Inr (combo, sm) \<Rightarrow>
          fifteens_masks cards masks
            (if strict_eq sm (Num 15)
             then acc\<lparr>points := points acc + 2,
                      combinations := combinations acc @ [map formatCard combo]\<rparr>
             else acc))"

definition scoreFifteens :: "card option list \<Rightarrow> js_error + fifteens_result" where
  "scoreFifteens cards =
     (let n = length cards
      in fifteens_masks cards [1 .. shl1 n - 1] \<lparr>points = 0, combinations = []\<rparr>)"

subsection \<open>Pairs\<close>

record pairs_result = score +
  pairs_found :: "jstring list"

text \<open>The first loop: \<open>rankCounts[card.rank] = (rankCounts[card.rank] || 0) + 1\<close>.\<close>

fun pairs_count ::
  "card option list \<Rightarrow> (jstring \<times> int) list \<Rightarrow> js_error + (jstring \<times> int) list" where
  "pairs_count [] rankCounts = Inr rankCounts"
| "pairs_count (crd # cards) rankCounts =
     (case crd of
        None \<Rightarrow> Inl TypeError
      | Some c \<Rightarrow>
          pairs_count cards
            (AList.update (rank c)
               ((case map_of rankCounts (rank c) of None \<Rightarrow> 0 | Some n \<Rightarrow> n) + 1) rankCounts))"

text \<open>The second loop, over the entries \<open>[rank, count]\<close>.\<close>

fun pairs_entries :: "(jstring \<times> int) list \<Rightarrow> pairs_result \<Rightarrow> pairs_result" where
  "pairs_entries [] acc = acc"
| "pairs_entries ((rnk, count) # entries) acc =
     pairs_entries entries
       (if count \<ge> 2 then
          (if count = 2 then
             acc\<lparr>points := points acc + 2,
                 pairs_found := pairs_found acc @ [str ''Pair of '' @ rnk @ str ''s'']\<rparr>
           else if count = 3 then
             acc\<lparr>points := points acc + 6,
                 pairs_found := pairs_found acc @ [str ''Three '' @ rnk @ str ''s'']\<rparr>
           else if count = 4 then
             acc\<lparr>points := points acc + 12,
                 pairs_found := pairs_found acc @ [str ''Four '' @ rnk @ str ''s'']\<rparr>
           else acc\<lparr>points := points acc + 0\<rparr>)
        else acc)"

definition scorePairs :: "card option list \<Rightarrow> js_error + pairs_result" where
  "scorePairs cards =
     (case pairs_count cards [] of
        Inl e \<Rightarrow> Inl e
      | Inr rankCounts \<Rightarrow>
          Inr (pairs_entries (own_entries string_index rankCounts)
                 \<lparr>points = 0, pairs_found = []\<rparr>))"

subsection \<open>Runs\<close>

definition getNumericRank :: "card option \<Rightarrow> js_error + number" where
  "getNumericRank crd =
     (case crd of None \<Rightarrow> Inl TypeError
      | Some c \<Rightarrow>
          if rank c = str ''A'' then Inr (Num 1)
          else if rank c = str ''J'' then Inr (Num 11)
          else if rank c = str ''Q'' then Inr (Num 12)
          else if rank c = str ''K'' then Inr (Num 13)
          else Inr (parseInt (rank c)))"

record run_head =
  run_length :: int
  multiplier :: int

record best_run = run_head +
  run_ranks :: "number list"

record run = run_head +
  run_cards :: "jstring list"

record runs_result = score +
  runs_found :: "run list"

text \<open>Grouping the cards by numeric rank: \<open>rankGroups[rank].push(card)\<close>.\<close>

fun runs_groups ::
  "card option list \<Rightarrow> (number \<times> card option list) list
     \<Rightarrow> js_error + (number \<times> card option list) list" where
  "runs_groups [] rankGroups = Inr rankGroups"
| "runs_groups (crd # cards) rankGroups =
     (case getNumericRank crd of
        Inl e \<Rightarrow> Inl e
      | Inr rnk \<Rightarrow>
          runs_groups cards
            (AList.update rnk
               ((case map_of rankGroups rnk of None \<Rightarrow> [] | Some grp \<Rightarrow> grp) @ [crd])
               rankGroups))"

text \<open>
  \<open>rankGroups[rank]\<close> where the group is dereferenced (\<open>.length\<close>, spread): a missing key
  would give \<open>undefined\<close> and throw.
\<close>

definition group_of ::
  "(number \<times> card option list) list \<Rightarrow> number \<Rightarrow> js_error + card option list" where
  "group_of rankGroups rnk =
     (case map_of rankGroups rnk of None \<Rightarrow> Inl TypeError | Some grp \<Rightarrow> Inr grp)"

text \<open>The loop over \<open>j\<close> that multiplies the sizes of the groups of a window.\<close>

fun run_multiplier ::
  "(number \<times> card option list) list \<Rightarrow> number list \<Rightarrow> nat \<Rightarrow> nat list \<Rightarrow> int \<times> number list
     \<Rightarrow> js_error + int \<times> number list" where
  "run_multiplier rankGroups ranks i [] (mult, runRanks) = Inr (mult, runRanks)"
| "run_multiplier rankGroups ranks i (j # js) (mult, runRanks) =
     (let rnk = ranks ! (i + j)
      in case group_of rankGroups rnk of
           Inl e \<Rightarrow> Inl e
         | Inr grp \<Rightarrow>
             run_multiplier rankGroups ranks i js
               (mult * int (length grp), runRanks @ [rnk]))"

text \<open>
  The source has the search three times, for the window sizes 5, 4 and 3; the three blocks
  differ in that constant only. \<open>run_windows k\<close> is the loop over \<open>i\<close> of the block for
  size \<open>k\<close>, on the state \<open>(bestRun, bestLength)\<close>.
\<close>

fun run_windows ::
  "nat \<Rightarrow> (number \<times> card option list) list \<Rightarrow> number list \<Rightarrow> nat list
     \<Rightarrow> best_run option \<times> int \<Rightarrow> js_error + best_run option \<times> int" where
  "run_windows k rankGroups ranks [] (bestRun, bestLength) = Inr (bestRun, bestLength)"
| "run_windows k rankGroups ranks (i # is) (bestRun, bestLength) =
     (if strict_eq (ranks ! (i + (k - 1))) (num_add (ranks ! i) (Num (int k - 1))) then
        (case run_multiplier rankGroups ranks i [0 ..< k] (1, []) of
           Inl e \<Rightarrow> Inl e
         | Inr (mult, runRanks) \<Rightarrow>
             run_windows k rankGroups ranks is
               (if int k > bestLength
                then (Some \<lparr>run_length = int k, multiplier = mult, run_ranks = runRanks\<rparr>, int k)
                else (bestRun, bestLength)))
      else run_windows k rankGroups ranks is (bestRun, bestLength))"

text \<open>Building the list of the cards of the winning run: \<open>runCards.push(...rankGroups[rank])\<close>.\<close>

fun collect_run_cards ::
  "(number \<times> card option list) list \<Rightarrow> number list \<Rightarrow> card option list
     \<Rightarrow> js_error + card option list" where
  "collect_run_cards rankGroups [] runCards = Inr runCards"
| "collect_run_cards rankGroups (rnk # ranks) runCards =
     (case group_of rankGroups rnk of
        Inl e \<Rightarrow> Inl e
      | Inr grp \<Rightarrow> collect_run_cards rankGroups ranks (runCards @ grp))"

definition scoreRuns :: "card option list \<Rightarrow> js_error + runs_result" where
  "scoreRuns cards =
     (if length cards < 3 then Inr \<lparr>points = 0, runs_found = []\<rparr>
      else
        case runs_groups cards [] of
          Inl e \<Rightarrow> Inl e
        | Inr rankGroups \<Rightarrow>
           (let ranks = js_sort (\<lambda>a b. num_sub a b) (map fst (own_entries number_index rankGroups))
            in case (if length ranks \<ge> 5
                     then run_windows 5 rankGroups ranks [0 ..< Suc (length ranks - 5)] (None, 0)
                     else Inr (None, 0)) of
                 Inl e \<Rightarrow> Inl e
               | Inr (bestRun5, bestLength5) \<Rightarrow>
           (case (if bestLength5 < 4 \<and> length ranks \<ge> 4
                  then run_windows 4 rankGroups ranks [0 ..< Suc (length ranks - 4)]
                         (bestRun5, bestLength5)
                  else Inr (bestRun5, bestLength5)) of
                 Inl e \<Rightarrow> Inl e
               | Inr (bestRun4, bestLength4) \<Rightarrow>
           (case (if bestLength4 < 3 \<and> length ranks \<ge> 3
                  then run_windows 3 rankGroups ranks [0 ..< Suc (length ranks - 3)]
                         (bestRun4, bestLength4)
                  else Inr (bestRun4, bestLength4)) of
                 Inl e \<Rightarrow> Inl e
               | Inr (bestRun, bestLength) \<Rightarrow>
           (case bestRun of
              None \<Rightarrow> Inr \<lparr>points = 0, runs_found = []\<rparr>
            | Some best \<Rightarrow>
                (case collect_run_cards rankGroups (run_ranks best) [] of
                   Inl e \<Rightarrow> Inl e
                 | Inr runCards \<Rightarrow>
                     Inr \<lparr>points = run_length best * multiplier best,
                          runs_found = [\<lparr>run_length = run_length best,
                                         multiplier = multiplier best,
                                         run_cards = map formatCard runCards\<rparr>]\<rparr>))))))"

subsection \<open>Flush\<close>

definition scoreFlush :: "card option list \<Rightarrow> bool \<Rightarrow> js_error + score" where
  "scoreFlush cards isCrib =
     (if length cards < 4 then Inr \<lparr>points = 0\<rparr>
      else
        let handCards = slice cards 0 (Some 4);
            cutCard = js_index cards 4
        in case js_index handCards 0 of
             None \<Rightarrow> Inl TypeError
           | Some first \<Rightarrow>
              (let firstSuit = suit first
               in (case every (\<lambda>crd. case crd of None \<Rightarrow> Inl TypeError
                                       | Some c \<Rightarrow> Inr (suit c = firstSuit)) handCards of
                     Inl e \<Rightarrow> Inl e
                   | Inr isHandFlush \<Rightarrow>
                       if \<not> isHandFlush then Inr \<lparr>points = 0\<rparr>
                       else if isCrib then
                         (if (case cutCard of None \<Rightarrow> False | Some cutc \<Rightarrow> suit cutc = firstSuit)
                          then Inr \<lparr>points = 5\<rparr>
                          else Inr \<lparr>points = 0\<rparr>)
                       else if (case cutCard of None \<Rightarrow> False | Some cutc \<Rightarrow> suit cutc = firstSuit)
                       then Inr \<lparr>points = 5\<rparr>
                       else Inr \<lparr>points = 4\<rparr>)))"

subsection \<open>Nobs\<close>

text \<open>The result has the field \<open>card\<close> only when the point is scored.\<close>

record nobs_result = score +
  nobs_card :: "jstring option"

definition scoreNobs :: "card option list \<Rightarrow> js_error + nobs_result" where
  "scoreNobs cards =
     (if length cards < 5 then Inr \<lparr>points = 0, nobs_card = None\<rparr>
      else
        let handCards = slice cards 0 (Some 4);
            cutCard = js_index cards 4
        in case cutCard of
             None \<Rightarrow> Inr \<lparr>points = 0, nobs_card = None\<rparr>
           | Some cutc \<Rightarrow>
               (case find_first (\<lambda>crd. case crd of None \<Rightarrow> Inl TypeError
                                        | Some c \<Rightarrow> Inr (rank c = str ''J'')) handCards of
                  Inl e \<Rightarrow> Inl e
                | Inr jackInHand \<Rightarrow>
                    (case jackInHand of
                       Some (Some jack) \<Rightarrow>
                         if suit jack = suit cutc
                         then Inr \<lparr>points = 1, nobs_card = Some (formatCard (Some jack))\<rparr>
                         else Inr \<lparr>points = 0, nobs_card = None\<rparr>
                     | _ \<Rightarrow> Inr \<lparr>points = 0, nobs_card = None\<rparr>)))"


section \<open>The main scoring function\<close>

record report =
  total :: int
  fifteens :: fifteens_result
  pairs :: pairs_result
  runs :: runs_result
  flush :: score
  nobs :: nobs_result

text \<open>
  \<open>scoreHand(cards, isCrib = false)\<close>: the argument \<open>cards\<close> may be missing (\<open>None\<close>); the
  result is \<open>null\<close> (\<open>Inr None\<close>) or the report.
\<close>

definition scoreHand :: "card option list option \<Rightarrow> bool \<Rightarrow> js_error + report option" where
  "scoreHand cards isCrib =
     (case cards of
        None \<Rightarrow> Inr None
      | Some cs \<Rightarrow>
          if length cs \<noteq> 5 \<or> list_ex (\<lambda>c. c = None) cs then Inr None
          else
            (case scoreFifteens cs of Inl e \<Rightarrow> Inl e | Inr fifteens' \<Rightarrow>
            (case scorePairs cs of Inl e \<Rightarrow> Inl e | Inr pairs' \<Rightarrow>
            (case scoreRuns cs of Inl e \<Rightarrow> Inl e | Inr runs' \<Rightarrow>
            (case scoreFlush cs isCrib of Inl e \<Rightarrow> Inl e | Inr flush' \<Rightarrow>
            (case scoreNobs cs of Inl e \<Rightarrow> Inl e | Inr nobs' \<Rightarrow>
               Inr (Some \<lparr>total = points fifteens' + points pairs' + points runs'
                                  + points flush' + points nobs',
                          fifteens = fifteens', pairs = pairs', runs = runs',
                          flush = flush', nobs = nobs'\<rparr>)))))))"


section \<open>Reference notions of the rules\<close>

text \<open>
  The notions in which the rules of the game are stated: the two valuations of a card
  (for fifteens: ace 1, the numerals their face value, the court cards 10; for runs: ace 1
  up to king 13, in the order of \<open>RANKS\<close>) and a complete hand, five cards of the deck,
  the first four held in hand and the fifth the cut card. (That the five cards differ is not
  required: the code does not check it, and no property below depends on it.)
\<close>

definition fifteenValue :: "card \<Rightarrow> int" where
  "fifteenValue c =
     (case map_of (zip RANKS [1, 2, 3, 4, 5, 6, 7, 8, 9, 10, 10, 10, 10]) (rank c) of
        Some v \<Rightarrow> v | None \<Rightarrow> 0)"

definition sequenceValue :: "card \<Rightarrow> int" where
  "sequenceValue c =
     (case map_of (zip RANKS [1, 2, 3, 4, 5, 6, 7, 8, 9, 10, 11, 12, 13]) (rank c) of
        Some v \<Rightarrow> v | None \<Rightarrow> 0)"

definition hand :: "card list \<Rightarrow> bool" where
  "hand cs \<longleftrightarrow> length cs = 5 \<and> set cs \<subseteq> set DECK"

text \<open>The object literal \<open>{ rank: r, suit: s }\<close>.\<close>

definition card_of :: "string \<Rightarrow> jstring \<Rightarrow> card" where
  "card_of r s = \<lparr>rank = str r, suit = s\<rparr>"


text \<open>
  The indices that a mask selects among the first \<open>n\<close>, as the inner loop of
  \<open>scoreFifteens\<close> reads them off, and the sum of the values of the cards there.
\<close>

definition mask_indices :: "int \<Rightarrow> nat \<Rightarrow> nat list" where
  "mask_indices msk n = filter (\<lambda>i. msk AND shl1 i \<noteq> 0) [0 ..< n]"

definition mask_sum :: "card list \<Rightarrow> int \<Rightarrow> int" where
  "mask_sum cs msk = sum_list (map (\<lambda>i. fifteenValue (cs ! i)) (mask_indices msk (length cs)))"

text \<open>The hands of the scenarios: four hand cards and the cut card.\<close>

definition scenario_A :: "card list" where
  "scenario_A = [card_of ''5'' spades, card_of ''5'' hearts, card_of ''5'' diamonds,
                 card_of ''J'' clubs, card_of ''5'' clubs]"

definition scenario_B :: "card list" where
  "scenario_B = [card_of ''3'' spades, card_of ''3'' hearts, card_of ''4'' spades,
                 card_of ''5'' spades, card_of ''6'' spades]"


text \<open>
  How many cards of a hand have a rank, and what the rules award a rank held \<open>k\<close> times:
  0, 0, 2, 6 and 12 points for \<open>k\<close> from 0 to 4.
\<close>

definition times_held :: "card list \<Rightarrow> jstring \<Rightarrow> nat" where
  "times_held cs r = length (filter (\<lambda>c. rank c = r) cs)"

definition pair_points :: "nat \<Rightarrow> int" where
  "pair_points k = [0, 0, 2, 6, 12] ! k"

text \<open>
  The two loops of \<open>scorePairs\<close> on cards that are all present: the object \<open>rankCounts\<close>
  after the first, and the points that the second adds for one entry.
\<close>

definition rank_tally :: "card list \<Rightarrow> (jstring \<times> int) list \<Rightarrow> (jstring \<times> int) list" where
  "rank_tally cs rankCounts =
     fold (\<lambda>c rc. AList.update (rank c)
                     ((case map_of rc (rank c) of None \<Rightarrow> 0 | Some n \<Rightarrow> n) + 1) rc)
          cs rankCounts"

definition pairs_award :: "int \<Rightarrow> int" where
  "pairs_award n = (if n = 2 then 2 else if n = 3 then 6 else if n = 4 then 12 else 0)"


text \<open>
  A run of length \<open>n\<close> from the value \<open>s\<close>: the \<open>n\<close> consecutive sequence values from
  \<open>s\<close> on are all held. And the number of cards of a hand with a sequence value.
\<close>

definition run_at :: "card list \<Rightarrow> int \<Rightarrow> nat \<Rightarrow> bool" where
  "run_at cs s n \<longleftrightarrow> {s ..< s + int n} \<subseteq> sequenceValue ` set cs"

definition value_count :: "card list \<Rightarrow> int \<Rightarrow> nat" where
  "value_count cs v = length (filter (\<lambda>c. sequenceValue c = v) cs)"

text \<open>
  The parts of \<open>scoreRuns\<close> on cards that are all present: the numeric rank of a card, the
  object \<open>rankGroups\<close>, the sorted array \<open>ranks\<close>, the test and the result of the loop body
  for the window of size \<open>k\<close> at index \<open>i\<close>, the first window that passes the test, the
  run that the three searches leave in \<open>bestRun\<close>, and the result object.
\<close>

definition numericRank :: "card \<Rightarrow> number" where
  "numericRank c = (case getNumericRank (Some c) of Inr v \<Rightarrow> v | Inl e \<Rightarrow> NaN)"

definition group_cards ::
  "card list \<Rightarrow> (number \<times> card option list) list \<Rightarrow> (number \<times> card option list) list" where
  "group_cards cs rankGroups =
     fold (\<lambda>c g. AList.update (numericRank c)
                    ((case map_of g (numericRank c) of None \<Rightarrow> [] | Some grp \<Rightarrow> grp) @ [Some c]) g)
          cs rankGroups"

definition group_size :: "(number \<times> card option list) list \<Rightarrow> number \<Rightarrow> int" where
  "group_size rankGroups rnk = (case map_of rankGroups rnk of None \<Rightarrow> 0 | Some grp \<Rightarrow> int (length grp))"

definition window_found :: "nat \<Rightarrow> number list \<Rightarrow> nat \<Rightarrow> bool" where
  "window_found k ranks i = strict_eq (ranks ! (i + (k - 1))) (num_add (ranks ! i) (Num (int k - 1)))"

definition window_run :: "nat \<Rightarrow> (number \<times> card option list) list \<Rightarrow> number list \<Rightarrow> nat \<Rightarrow> best_run" where
  "window_run k rankGroups ranks i =
     \<lparr>run_length = int k,
      multiplier = prod_list (map (\<lambda>j. group_size rankGroups (ranks ! (i + j))) [0 ..< k]),
      run_ranks = map (\<lambda>j. ranks ! (i + j)) [0 ..< k]\<rparr>"

definition first_window :: "nat \<Rightarrow> number list \<Rightarrow> nat option" where
  "first_window k ranks =
     (if length ranks \<ge> k then find (window_found k ranks) [0 ..< Suc (length ranks - k)] else None)"

definition best_window :: "(number \<times> card option list) list \<Rightarrow> number list \<Rightarrow> best_run option" where
  "best_window rankGroups ranks =
     (case first_window 5 ranks of
        Some i \<Rightarrow> Some (window_run 5 rankGroups ranks i)
      | None \<Rightarrow>
         (case first_window 4 ranks of
            Some i \<Rightarrow> Some (window_run 4 rankGroups ranks i)
          | None \<Rightarrow>
             (case first_window 3 ranks of
                Some i \<Rightarrow> Some (window_run 3 rankGroups ranks i)
              | None \<Rightarrow> None)))"

definition group_list :: "(number \<times> card option list) list \<Rightarrow> number \<Rightarrow> card option list" where
  "group_list rankGroups rnk = (case map_of rankGroups rnk of None \<Rightarrow> [] | Some grp \<Rightarrow> grp)"

definition runs_report :: "(number \<times> card option list) list \<Rightarrow> best_run option \<Rightarrow> runs_result" where
  "runs_report rankGroups bestRun =
     (case bestRun of
        None \<Rightarrow> \<lparr>points = 0, runs_found = []\<rparr>
      | Some best \<Rightarrow>
          \<lparr>points = run_length best * multiplier best,
           runs_found = [\<lparr>run_length = run_length best, multiplier = multiplier best,
                          run_cards = map formatCard (concat (map (group_list rankGroups) (run_ranks best)))\<rparr>]\<rparr>)"

definition sorted_ranks :: "(number \<times> card option list) list \<Rightarrow> number list" where
  "sorted_ranks rankGroups = js_sort (\<lambda>a b. num_sub a b) (map fst (own_entries number_index rankGroups))"


text \<open>
  Input that the main function refuses: the argument is missing, the array has not exactly
  five slots, or a slot is empty.
\<close>

definition incomplete :: "card option list option \<Rightarrow> bool" where
  "incomplete cards \<longleftrightarrow>
     (case cards of None \<Rightarrow> True | Some cs \<Rightarrow> length cs \<noteq> 5 \<or> None \<in> set cs)"

text \<open>
  An iteration over slots that ends at the first card that satisfies \<open>stop\<close> reads an empty
  slot: some slot is empty and all slots before it hold cards that do not end the iteration.
\<close>

definition reads_absent :: "(card \<Rightarrow> bool) \<Rightarrow> card option list \<Rightarrow> bool" where
  "reads_absent stop slots \<longleftrightarrow>
     (\<exists>j<length slots. slots ! j = None \<and> (\<forall>i<j. \<exists>c. slots ! i = Some c \<and> \<not> stop c))"

text \<open>Two inputs with an empty slot: without the cut card, and without the first hand card.\<close>

definition absent_cut :: "card option list" where
  "absent_cut = [Some (card_of ''A'' spades), Some (card_of ''2'' spades),
                 Some (card_of ''3'' spades), Some (card_of ''4'' spades), None]"

definition absent_first :: "card option list" where
  "absent_first = [None, Some (card_of ''5'' hearts), Some (card_of ''5'' diamonds),
                   Some (card_of ''J'' clubs), Some (card_of ''5'' clubs)]"

text \<open>
  The numbers of a result of \<open>scoreHand\<close>: the total and the points of the five rules, in
  the order fifteens, pairs, runs, flush, nobs.
\<close>

definition breakdown :: "js_error + report option \<Rightarrow> int list" where
  "breakdown res =
     (case res of
        Inr (Some rep) \<Rightarrow> [total rep, points (fifteens rep), points (pairs rep),
                           points (runs rep), points (flush rep), points (nobs rep)]
      | _ \<Rightarrow> [])"


section \<open>Strings, ranks and the deck\<close>

lemmas suit_defs = spades_def hearts_def diamonds_def clubs_def

lemma str_inject [simp]: "str a = str b \<longleftrightarrow> a = b"
  by (simp add: str_def inj_map_eq_map inj_on_def)

lemma in_DECK_iff: "c \<in> set DECK \<longleftrightarrow> rank c \<in> set RANKS \<and> suit c \<in> set SUITS"
  by (cases c) (auto simp: DECK_def)

lemma parseInt_ranks:
  "parseInt (str ''2'') = Num 2" "parseInt (str ''3'') = Num 3" "parseInt (str ''4'') = Num 4"
  "parseInt (str ''5'') = Num 5" "parseInt (str ''6'') = Num 6" "parseInt (str ''7'') = Num 7"
  "parseInt (str ''8'') = Num 8" "parseInt (str ''9'') = Num 9" "parseInt (str ''10'') = Num 10"
  by (simp_all add: parseInt_def str_def StrWhiteSpaceChar_def radix_digit_def)

lemma rank_cases:
  assumes "rank c \<in> set RANKS"
  obtains
    "rank c = str ''A''" | "rank c = str ''2''" | "rank c = str ''3''" | "rank c = str ''4''"
  | "rank c = str ''5''" | "rank c = str ''6''" | "rank c = str ''7''" | "rank c = str ''8''"
  | "rank c = str ''9''" | "rank c = str ''10''" | "rank c = str ''J''" | "rank c = str ''Q''"
  | "rank c = str ''K''"
  using assms by (auto simp: RANKS_def)

text \<open>On the 13 ranks the two valuations of the code are the ones of the rules.\<close>

lemma getCardValue_rank:
  assumes "rank c \<in> set RANKS"
  shows "getCardValue (Some c) = Inr (Num (fifteenValue c))"
  using assms
  by (cases rule: rank_cases)
     (simp_all add: getCardValue_def fifteenValue_def RANKS_def parseInt_ranks)

lemma getNumericRank_rank:
  assumes "rank c \<in> set RANKS"
  shows "getNumericRank (Some c) = Inr (Num (sequenceValue c))"
  using assms
  by (cases rule: rank_cases)
     (simp_all add: getNumericRank_def sequenceValue_def RANKS_def parseInt_ranks)

lemma slice_last: "s \<noteq> [] \<Longrightarrow> slice s (- 1) None = [last s]"
  by (cases s rule: rev_cases) (simp_all add: slice_def)

lemma slice_butlast: "slice s 0 (Some (- 1)) = butlast s"
  by (cases s rule: rev_cases) (simp_all add: slice_def butlast_conv_take)

lemma suit_single: "s \<in> set SUITS \<Longrightarrow> \<exists>u. s = [u]"
  by (auto simp: SUITS_def suit_defs)


section \<open>Card tokens\<close>

text \<open>
  C10. Parsing the token of a card of the deck gives the card back, ranks of two characters
  included. A token whose rank part (all but the last code unit) is not one of the 13 ranks, or
  whose suit part (the last code unit) is not one of the 4 suits, is parsed to \<open>null\<close>, and so
  are the empty string and a missing argument.
\<close>

theorem parseCard_formatCard:
  "(c \<in> set DECK \<longrightarrow> parseCard (Some (formatCard (Some c))) = Some c)
   \<and> (s \<noteq> [] \<and> (butlast s \<notin> set RANKS \<or> [last s] \<notin> set SUITS) \<longrightarrow> parseCard (Some s) = None)
   \<and> parseCard (Some []) = None \<and> parseCard None = None"
proof (intro conjI impI)
  assume "c \<in> set DECK"
  then have r: "rank c \<in> set RANKS" and "suit c \<in> set SUITS"
    by (simp_all add: in_DECK_iff)
  then obtain u where u: "suit c = [u]"
    using suit_single by blast
  have "slice (rank c @ [u]) (- 1) None = [u]" "slice (rank c @ [u]) 0 (Some (- 1)) = rank c"
    by (simp_all add: slice_last slice_butlast)
  with r \<open>suit c \<in> set SUITS\<close> u show "parseCard (Some (formatCard (Some c))) = Some c"
    by (simp add: parseCard_def formatCard_def)
next
  assume "s \<noteq> [] \<and> (butlast s \<notin> set RANKS \<or> [last s] \<notin> set SUITS)"
  then show "parseCard (Some s) = None"
    by (auto simp: parseCard_def slice_last slice_butlast)
qed (simp_all add: parseCard_def)

theorem parseCard_formatCard_witness:
  "card_of ''10'' hearts \<in> set DECK
   \<and> parseCard (Some (formatCard (Some (card_of ''10'' hearts)))) = Some (card_of ''10'' hearts)
   \<and> parseCard (Some (str ''1'' @ hearts)) = None"
proof -
  have d: "card_of ''10'' hearts \<in> set DECK"
    by (simp add: in_DECK_iff card_of_def RANKS_def SUITS_def)
  have n: "str ''1'' @ hearts \<noteq> [] \<and> (butlast (str ''1'' @ hearts) \<notin> set RANKS
             \<or> [last (str ''1'' @ hearts)] \<notin> set SUITS)"
    by (simp add: hearts_def butlast_append RANKS_def)
  from parseCard_formatCard [of "card_of ''10'' hearts" "str ''1'' @ hearts"] d n
  show ?thesis by blast
qed


section \<open>Flush\<close>

lemma every_suit_all:
  "every (\<lambda>crd. case crd of None \<Rightarrow> Inl TypeError | Some c \<Rightarrow> Inr (suit c = t)) (map Some cs)
     = Inr (\<forall>c\<in>set cs. suit c = t)"
  by (induction cs) auto

text \<open>
  C6. On five cards: if the four hand cards do not share one suit the flush scores 0, in
  either mode and whatever the cut card is; if they do, it scores 5 when the cut card has
  that suit (in either mode), and otherwise 0 in crib mode and 4 in hand mode.
\<close>

theorem scoreFlush_rule:
  fixes ca cb cc cd cutCard :: card
  defines "cards \<equiv> map Some [ca, cb, cc, cd, cutCard]"
  defines "handFlush \<equiv> suit cb = suit ca \<and> suit cc = suit ca \<and> suit cd = suit ca"
  shows "(\<not> handFlush \<longrightarrow> scoreFlush cards isCrib = Inr \<lparr>points = 0\<rparr>)
       \<and> (handFlush \<and> suit cutCard = suit ca \<longrightarrow> scoreFlush cards isCrib = Inr \<lparr>points = 5\<rparr>)
       \<and> (handFlush \<and> suit cutCard \<noteq> suit ca \<and> isCrib
            \<longrightarrow> scoreFlush cards isCrib = Inr \<lparr>points = 0\<rparr>)
       \<and> (handFlush \<and> suit cutCard \<noteq> suit ca \<and> \<not> isCrib
            \<longrightarrow> scoreFlush cards isCrib = Inr \<lparr>points = 4\<rparr>)"
proof -
  have hc: "slice cards 0 (Some 4) = map Some [ca, cb, cc, cd]"
    by (simp add: cards_def slice_def)
  have cut: "js_index cards 4 = Some cutCard" and len: "\<not> length cards < 4"
    by (simp_all add: cards_def js_index_def)
  show ?thesis
    unfolding scoreFlush_def Let_def hc cut every_suit_all
    using len by (auto simp: js_index_def handFlush_def)
qed

theorem scoreFlush_rule_witness:
  "scoreFlush (map Some [card_of ''A'' spades, card_of ''2'' spades, card_of ''3'' spades,
                         card_of ''4'' spades, card_of ''5'' hearts]) False = Inr \<lparr>points = 4\<rparr>
   \<and> scoreFlush (map Some [card_of ''A'' spades, card_of ''2'' spades, card_of ''3'' spades,
                         card_of ''4'' spades, card_of ''5'' hearts]) True = Inr \<lparr>points = 0\<rparr>
   \<and> scoreFlush (map Some [card_of ''A'' spades, card_of ''2'' spades, card_of ''3'' spades,
                         card_of ''4'' spades, card_of ''5'' spades]) True = Inr \<lparr>points = 5\<rparr>
   \<and> scoreFlush (map Some [card_of ''A'' spades, card_of ''2'' clubs, card_of ''3'' spades,
                         card_of ''4'' spades, card_of ''5'' spades]) False = Inr \<lparr>points = 0\<rparr>"
  using scoreFlush_rule [where ca = "card_of ''A'' spades" and cb = "card_of ''2'' spades"
          and cc = "card_of ''3'' spades" and cd = "card_of ''4'' spades"
          and cutCard = "card_of ''5'' hearts" and isCrib = False]
        scoreFlush_rule [where ca = "card_of ''A'' spades" and cb = "card_of ''2'' spades"
          and cc = "card_of ''3'' spades" and cd = "card_of ''4'' spades"
          and cutCard = "card_of ''5'' hearts" and isCrib = True]
        scoreFlush_rule [where ca = "card_of ''A'' spades" and cb = "card_of ''2'' spades"
          and cc = "card_of ''3'' spades" and cd = "card_of ''4'' spades"
          and cutCard = "card_of ''5'' spades" and isCrib = True]
        scoreFlush_rule [where ca = "card_of ''A'' spades" and cb = "card_of ''2'' clubs"
          and cc = "card_of ''3'' spades" and cd = "card_of ''4'' spades"
          and cutCard = "card_of ''5'' spades" and isCrib = False]
  by (simp add: card_of_def suit_defs)


section \<open>Nobs\<close>

text \<open>
  C1. The rule gives the point when any Jack among the four hand cards has the suit of the
  cut card. The code looks at the first Jack of the hand only: with the Jack of hearts
  before the Jack of spades and a spade cut, it scores 0.
\<close>

theorem scoreNobs_first_jack_decides:
  "scoreNobs (map Some [card_of ''J'' hearts, card_of ''J'' spades, card_of ''2'' clubs,
                        card_of ''3'' diamonds, card_of ''5'' spades])
     = Inr \<lparr>points = 0, nobs_card = None\<rparr>"
  by (simp add: scoreNobs_def slice_def js_index_def card_of_def suit_defs)

section \<open>Fifteens\<close>

lemma hand_scenario_A: "hand scenario_A"
  by (simp add: hand_def scenario_A_def in_DECK_iff card_of_def RANKS_def SUITS_def)

lemma hand_scenario_B: "hand scenario_B"
  by (simp add: hand_def scenario_B_def in_DECK_iff card_of_def RANKS_def SUITS_def)

lemma js_index_map_Some: "i < length cs \<Longrightarrow> js_index (map Some cs) i = Some (cs ! i)"
  by (simp add: js_index_def)

lemma fifteens_combo_present:
  assumes "set cs \<subseteq> set DECK" and "\<forall>i\<in>set is. i < length cs"
  shows "fifteens_combo (map Some cs) msk is (combo, Num a) =
           Inr (combo @ map (\<lambda>i. Some (cs ! i)) (filter (\<lambda>i. msk AND shl1 i \<noteq> 0) is),
                Num (a + sum_list (map (\<lambda>i. fifteenValue (cs ! i))
                                       (filter (\<lambda>i. msk AND shl1 i \<noteq> 0) is))))"
  using assms(2)
proof (induction "is" arbitrary: combo a)
  case Nil
  then show ?case by simp
next
  case (Cons i "is")
  then have "i < length cs" by simp
  with assms(1) have "rank (cs ! i) \<in> set RANKS"
    using in_DECK_iff nth_mem by blast
  then have v: "getCardValue (Some (cs ! i)) = Inr (Num (fifteenValue (cs ! i)))"
    by (rule getCardValue_rank)
  from Cons show ?case
    by (simp add: v js_index_map_Some \<open>i < length cs\<close>)
qed

lemma fifteens_masks_present:
  assumes "set cs \<subseteq> set DECK"
  shows "fifteens_masks (map Some cs) ms acc =
           Inr (acc\<lparr>points := points acc + 2 * int (length (filter (\<lambda>m. mask_sum cs m = 15) ms)),
                    combinations := combinations acc
                      @ map (\<lambda>m. map (\<lambda>i. formatCard (Some (cs ! i))) (mask_indices m (length cs)))
                            (filter (\<lambda>m. mask_sum cs m = 15) ms)\<rparr>)"
proof (induction ms arbitrary: acc)
  case Nil
  then show ?case by simp
next
  case (Cons m ms)
  have c: "fifteens_combo (map Some cs) m [0 ..< length (map Some cs)] ([], Num 0) =
             Inr (map (\<lambda>i. Some (cs ! i)) (mask_indices m (length cs)), Num (mask_sum cs m))"
    using fifteens_combo_present [OF assms, of "[0 ..< length cs]" m "[]" 0]
    by (simp add: mask_indices_def mask_sum_def)
  show ?case
    by (simp only: fifteens_masks.simps c sum.case prod.case Cons.IH)
       (simp add: comp_def)
qed

lemma scoreFifteens_present:
  assumes "set cs \<subseteq> set DECK"
  shows "scoreFifteens (map Some cs) =
           Inr \<lparr>points = 2 * int (length (filter (\<lambda>m. mask_sum cs m = 15) [1 .. shl1 (length cs) - 1])),
                combinations =
                  map (\<lambda>m. map (\<lambda>i. formatCard (Some (cs ! i))) (mask_indices m (length cs)))
                      (filter (\<lambda>m. mask_sum cs m = 15) [1 .. shl1 (length cs) - 1])\<rparr>"
  by (simp add: scoreFifteens_def Let_def fifteens_masks_present [OF assms])


lemma shl1_small: "i < 31 \<Longrightarrow> shl1 i = 2 ^ i"
  by (simp add: shl1_def)

lemma set_mask_indices:
  assumes "n \<le> 31"
  shows "set (mask_indices m n) = {i. i < n \<and> bit m i}"
  using assms by (auto simp: mask_indices_def shl1_small and_exp_eq_0_iff_not_bit)

lemma mask_sum_set:
  assumes "length cs \<le> 31"
  shows "mask_sum cs m = (\<Sum>i\<in>{i. i < length cs \<and> bit m i}. fifteenValue (cs ! i))"
proof -
  have "distinct (mask_indices m (length cs))"
    by (simp add: mask_indices_def)
  then show ?thesis
    by (simp add: mask_sum_def sum_list_distinct_conv_sum_set set_mask_indices [OF assms])
qed

text \<open>The masks from 1 to \<open>2^n - 1\<close> and the non-empty subsets of the first \<open>n\<close> indices.\<close>

lemma mask_bits_inj: "inj_on (\<lambda>m::int. {i. i < n \<and> bit m i}) {1 .. 2 ^ n - 1}"
proof (rule inj_onI)
  fix x y :: int
  assume x: "x \<in> {1 .. 2 ^ n - 1}" and y: "y \<in> {1 .. 2 ^ n - 1}"
    and e: "{i. i < n \<and> bit x i} = {i. i < n \<and> bit y i}"
  from e have "\<And>i. (i < n \<and> bit x i) = (i < n \<and> bit y i)"
    by blast
  then have "take_bit n x = take_bit n y"
    by (simp add: bit_eq_iff bit_take_bit_iff)
  moreover have "take_bit n x = x" "take_bit n y = y"
    using x y by (simp_all add: take_bit_int_eq_self)
  ultimately show "x = y" by simp
qed

lemma mask_bits_image:
  "(\<lambda>m::int. {i. i < n \<and> bit m i}) ` {1 .. 2 ^ n - 1} = {S. S \<subseteq> {0 ..< n} \<and> S \<noteq> {}}"
proof (intro equalityI subsetI)
  fix S assume "S \<in> (\<lambda>m::int. {i. i < n \<and> bit m i}) ` {1 .. 2 ^ n - 1}"
  then obtain m :: int where m: "1 \<le> m" "m \<le> 2 ^ n - 1" and S: "S = {i. i < n \<and> bit m i}"
    by auto
  have "S \<noteq> {}"
  proof
    assume "S = {}"
    with S have "\<And>i. \<not> (i < n \<and> bit m i)" by blast
    then have "take_bit n m = 0"
      by (simp add: bit_eq_iff bit_take_bit_iff)
    moreover have "take_bit n m = m"
      using m by (simp add: take_bit_int_eq_self)
    ultimately show False using m by simp
  qed
  with S show "S \<in> {S. S \<subseteq> {0 ..< n} \<and> S \<noteq> {}}" by auto
next
  fix S assume "S \<in> {S. S \<subseteq> {0 ..< n} \<and> S \<noteq> {}}"
  then have sub: "S \<subseteq> {0 ..< n}" and ne: "S \<noteq> {}" by auto
  define m :: int where "m = horner_sum of_bool 2 (map (\<lambda>i. i \<in> S) [0 ..< n])"
  have b: "bit m i \<longleftrightarrow> i < n \<and> i \<in> S" for i
    by (auto simp: m_def bit_horner_sum_bit_iff)
  have "0 \<le> m" "m < 2 ^ n"
    using horner_sum_nonnegative [of "map (\<lambda>i. i \<in> S) [0 ..< n]", where ?'a = int]
          horner_sum_bound [of "map (\<lambda>i. i \<in> S) [0 ..< n]", where ?'a = int]
    by (simp_all add: m_def)
  moreover have "m \<noteq> 0"
  proof
    assume "m = 0"
    from ne obtain i where "i \<in> S" by blast
    with sub have "bit m i" by (auto simp: b)
    with \<open>m = 0\<close> show False by simp
  qed
  ultimately have "m \<in> {1 .. 2 ^ n - 1}" by simp
  moreover have "{i. i < n \<and> bit m i} = S"
    using sub by (auto simp: b)
  ultimately show "S \<in> (\<lambda>m::int. {i. i < n \<and> bit m i}) ` {1 .. 2 ^ n - 1}"
    by (metis (mono_tags, lifting) image_eqI)
qed

lemma count_masks_subsets:
  "length (filter (\<lambda>m. P {i. i < n \<and> bit m i}) [1 .. 2 ^ n - 1])
     = card {S. S \<subseteq> {0 ..< n} \<and> S \<noteq> {} \<and> P S}"
proof -
  let ?F = "\<lambda>m::int. {i. i < n \<and> bit m i}"
  have "length (filter (\<lambda>m. P (?F m)) [1 .. 2 ^ n - 1]) = card {m \<in> {1 .. 2 ^ n - 1}. P (?F m)}"
    by (simp add: distinct_length_filter Int_def conj_commute)
  also have "\<dots> = card (?F ` {m \<in> {1 .. 2 ^ n - 1}. P (?F m)})"
    by (rule card_image [symmetric]) (rule inj_on_subset [OF mask_bits_inj], blast)
  also have "?F ` {m \<in> {1 .. 2 ^ n - 1}. P (?F m)} = {S \<in> ?F ` {1 .. 2 ^ n - 1}. P S}"
    by blast
  also have "\<dots> = {S. S \<subseteq> {0 ..< n} \<and> S \<noteq> {} \<and> P S}"
    unfolding mask_bits_image by blast
  finally show ?thesis .
qed

text \<open>
  C5. On a complete hand the fifteens evaluator returns twice the number of non-empty sets of
  positions (out of the 31, of any size from 1 to 5) whose cards have values that add up to
  15, the ace counting 1, the numerals their face value and the court cards 10; the points
  are even.
\<close>

theorem scoreFifteens_counts_subsets:
  assumes "hand cs"
  shows "\<exists>r. scoreFifteens (map Some cs) = Inr r
           \<and> points r = 2 * int (card {S. S \<subseteq> {0 ..< 5} \<and> S \<noteq> {}
                                        \<and> (\<Sum>i\<in>S. fifteenValue (cs ! i)) = 15})
           \<and> even (points r)"
proof -
  from assms have len: "length cs = 5" and deck: "set cs \<subseteq> set DECK"
    by (simp_all add: hand_def)
  have s: "shl1 (length cs) - 1 = 2 ^ 5 - 1"
    by (simp add: len shl1_def)
  have "length (filter (\<lambda>m. mask_sum cs m = 15) [1 .. 2 ^ 5 - 1])
          = card {S. S \<subseteq> {0 ..< 5} \<and> S \<noteq> {} \<and> (\<Sum>i\<in>S. fifteenValue (cs ! i)) = 15}"
    using count_masks_subsets [of "\<lambda>S. (\<Sum>i\<in>S. fifteenValue (cs ! i)) = 15" 5]
    by (simp add: mask_sum_set len)
  then show ?thesis
    unfolding scoreFifteens_present [OF deck] s by simp
qed

theorem scoreFifteens_counts_subsets_witness:
  "hand scenario_A
   \<and> (\<exists>r. scoreFifteens (map Some scenario_A) = Inr r
         \<and> points r = 2 * int (card {S. S \<subseteq> {0 ..< 5} \<and> S \<noteq> {}
                                      \<and> (\<Sum>i\<in>S. fifteenValue (scenario_A ! i)) = 15})
         \<and> even (points r))"
  using scoreFifteens_counts_subsets [OF hand_scenario_A] hand_scenario_A by simp

section \<open>Pairs\<close>

lemma pairs_count_present: "pairs_count (map Some cs) rc = Inr (rank_tally cs rc)"
  by (induction cs arbitrary: rc) (simp_all add: rank_tally_def)

lemma distinct_rank_tally: "distinct (map fst rc) \<Longrightarrow> distinct (map fst (rank_tally cs rc))"
  by (induction cs arbitrary: rc) (simp_all add: rank_tally_def distinct_update)

lemma map_of_rank_tally:
  "map_of (rank_tally cs rc) r =
     (if map_of rc r = None \<and> times_held cs r = 0 then None
      else Some ((case map_of rc r of None \<Rightarrow> 0 | Some n \<Rightarrow> n) + int (times_held cs r)))"
proof (induction cs arbitrary: rc)
  case Nil
  then show ?case by (auto simp: rank_tally_def times_held_def)
next
  case (Cons c cs)
  have "rank_tally (c # cs) rc =
          rank_tally cs (AList.update (rank c) ((case map_of rc (rank c) of None \<Rightarrow> 0 | Some n \<Rightarrow> n) + 1) rc)"
    by (simp add: rank_tally_def)
  then show ?case
    by (auto simp: Cons.IH update_conv' times_held_def split: option.splits)
qed

lemma keys_rank_tally: "fst ` set (rank_tally cs []) = rank ` set cs"
proof -
  have "r \<in> fst ` set (rank_tally cs []) \<longleftrightarrow> r \<in> rank ` set cs" for r
  proof -
    have "r \<in> fst ` set (rank_tally cs []) \<longleftrightarrow> map_of (rank_tally cs []) r \<noteq> None"
      by (simp add: map_of_eq_None_iff)
    also have "\<dots> \<longleftrightarrow> times_held cs r \<noteq> 0"
      by (simp add: map_of_rank_tally)
    also have "\<dots> \<longleftrightarrow> r \<in> rank ` set cs"
      by (auto simp: times_held_def filter_empty_conv)
    finally show ?thesis .
  qed
  then show ?thesis by blast
qed

lemma times_held_absent: "r \<notin> rank ` set cs \<Longrightarrow> times_held cs r = 0"
  by (auto simp: times_held_def filter_empty_conv)

lemma points_pairs_entries:
  "points (pairs_entries es acc) = points acc + sum_list (map (\<lambda>(r, n). pairs_award n) es)"
  by (induction es arbitrary: acc) (auto simp: pairs_award_def)

lemma sum_list_insort_key:
  fixes g :: "'a \<Rightarrow> int"
  shows "sum_list (map g (insort_key f x xs)) = g x + sum_list (map g xs)"
  by (induction xs) simp_all

lemma sum_list_sort_key:
  fixes g :: "'a \<Rightarrow> int"
  shows "sum_list (map g (sort_key f xs)) = sum_list (map g xs)"
  by (induction xs) (simp_all add: sum_list_insort_key)

lemma sum_list_filter_split:
  fixes g :: "'a \<Rightarrow> int"
  shows "sum_list (map g (filter P xs)) + sum_list (map g (filter (\<lambda>x. \<not> P x) xs)) = sum_list (map g xs)"
  by (induction xs) simp_all

lemma sum_list_own_entries:
  fixes g :: "'k \<times> 'v \<Rightarrow> int"
  shows "sum_list (map g (own_entries index obj)) = sum_list (map g obj)"
proof -
  have e: "filter (\<lambda>(k, v). index k = None) obj
             = filter (\<lambda>x. \<not> (case x of (k, v) \<Rightarrow> index k \<noteq> None)) obj"
    by (rule filter_cong) auto
  show ?thesis
    unfolding own_entries_def e
    by (simp only: map_append sum_list_append sum_list_sort_key sum_list_filter_split)
qed

lemma sum_list_alist:
  fixes h :: "'k \<Rightarrow> 'v \<Rightarrow> int"
  assumes "distinct (map fst al)"
  shows "sum_list (map (\<lambda>(k, v). h k v) al) = (\<Sum>k\<in>fst ` set al. h k (the (map_of al k)))"
  using assms
proof (induction al)
  case Nil
  then show ?case by simp
next
  case (Cons p al)
  obtain k v where p: "p = (k, v)" by (cases p)
  with Cons.prems have k: "k \<notin> fst ` set al" and d: "distinct (map fst al)"
    by auto
  have "(\<Sum>k'\<in>fst ` set al. h k' (the (map_of (p # al) k'))) = (\<Sum>k'\<in>fst ` set al. h k' (the (map_of al k')))"
    using k by (intro sum.cong) (auto simp: p)
  with k show ?case
    by (simp add: p Cons.IH [OF d])
qed

lemma scorePairs_present:
  "\<exists>res. scorePairs (map Some cs) = Inr res
         \<and> points res = (\<Sum>r\<in>rank ` set cs. pairs_award (int (times_held cs r)))"
proof -
  let ?rc = "rank_tally cs []"
  have d: "distinct (map fst ?rc)"
    by (simp add: distinct_rank_tally)
  have "sum_list (map (\<lambda>(r, n). pairs_award n) (own_entries string_index ?rc))
          = (\<Sum>r\<in>fst ` set ?rc. pairs_award (the (map_of ?rc r)))"
    by (simp add: sum_list_own_entries sum_list_alist [OF d])
  also have "\<dots> = (\<Sum>r\<in>rank ` set cs. pairs_award (int (times_held cs r)))"
    unfolding keys_rank_tally
    by (intro sum.cong) (auto simp: map_of_rank_tally times_held_def filter_empty_conv)
  finally show ?thesis
    by (simp add: scorePairs_def pairs_count_present points_pairs_entries)
qed

text \<open>
  Five different cards of the deck hold no rank more than four times: the condition of the
  property below is met by every hand dealt from one deck.
\<close>

lemma times_held_distinct:
  assumes "hand cs" and "distinct cs"
  shows "times_held cs r \<le> 4"
proof -
  let ?held = "filter (\<lambda>c. rank c = r) cs"
  have "distinct ?held"
    using assms(2) by simp
  then have "times_held cs r = card (set ?held)"
    unfolding times_held_def by (rule distinct_card [symmetric])
  also have "set ?held \<subseteq> (\<lambda>s. \<lparr>rank = r, suit = s\<rparr>) ` set SUITS"
  proof
    fix c assume "c \<in> set ?held"
    then have "c \<in> set DECK" "rank c = r"
      using assms(1) by (auto simp: hand_def)
    then have "suit c \<in> set SUITS" "c = \<lparr>rank = r, suit = suit c\<rparr>"
      by (simp_all add: in_DECK_iff)
    then show "c \<in> (\<lambda>s. \<lparr>rank = r, suit = s\<rparr>) ` set SUITS"
      by blast
  qed
  then have "card (set ?held) \<le> card ((\<lambda>s. \<lparr>rank = r, suit = s\<rparr>) ` set SUITS)"
    by (intro card_mono) simp_all
  also have "\<dots> \<le> card (set SUITS)"
    by (rule card_image_le) simp
  also have "\<dots> \<le> length SUITS"
    by (rule card_length)
  also have "\<dots> = 4"
    by (simp add: SUITS_def)
  finally show ?thesis .
qed

text \<open>
  C7. On a complete hand in which no rank is held more than four times, the pairs evaluator
  returns the sum over the 13 ranks of what each rank earns alone: 0, 0, 2, 6 or 12 points
  when it is held 0, 1, 2, 3 or 4 times.
\<close>

theorem scorePairs_per_rank:
  assumes "hand cs" and "\<forall>r\<in>set RANKS. times_held cs r \<le> 4"
  shows "\<exists>res. scorePairs (map Some cs) = Inr res
           \<and> points res = (\<Sum>r\<in>set RANKS. pair_points (times_held cs r))"
proof -
  from assms(1) have sub: "rank ` set cs \<subseteq> set RANKS"
    by (auto simp: hand_def in_DECK_iff)
  have "(\<Sum>r\<in>rank ` set cs. pairs_award (int (times_held cs r)))
          = (\<Sum>r\<in>set RANKS. pairs_award (int (times_held cs r)))"
  proof (rule sum.mono_neutral_left [OF _ sub])
    show "\<forall>r\<in>set RANKS - rank ` set cs. pairs_award (int (times_held cs r)) = 0"
      by (simp add: times_held_absent pairs_award_def)
  qed simp
  also have "\<dots> = (\<Sum>r\<in>set RANKS. pair_points (times_held cs r))"
  proof (rule sum.cong [OF refl])
    fix r assume "r \<in> set RANKS"
    with assms(2) have "times_held cs r \<le> 4" by blast
    then consider "times_held cs r = 0" | "times_held cs r = 1" | "times_held cs r = 2"
      | "times_held cs r = 3" | "times_held cs r = 4"
      by linarith
    then show "pairs_award (int (times_held cs r)) = pair_points (times_held cs r)"
      by cases (simp_all add: pairs_award_def pair_points_def)
  qed
  finally show ?thesis
    using scorePairs_present [of cs] by auto
qed

theorem scorePairs_per_rank_witness:
  "\<exists>res. scorePairs (map Some scenario_A) = Inr res \<and> points res = 12"
proof -
  have h: "\<forall>r\<in>set RANKS. times_held scenario_A r \<le> 4"
    by (simp add: RANKS_def times_held_def scenario_A_def card_of_def)
  have "(\<Sum>r\<in>set RANKS. pair_points (times_held scenario_A r)) = 12"
    by (simp add: RANKS_def times_held_def scenario_A_def card_of_def pair_points_def)
  with scorePairs_per_rank [OF hand_scenario_A h] show ?thesis
    by simp
qed

section \<open>Runs\<close>

subsection \<open>The loops on present cards\<close>

lemma getNumericRank_Some: "getNumericRank (Some c) = Inr (numericRank c)"
  by (simp add: numericRank_def getNumericRank_def)

lemma runs_groups_present: "runs_groups (map Some cs) g = Inr (group_cards cs g)"
  by (induction cs arbitrary: g) (simp_all add: group_cards_def getNumericRank_Some)

lemma map_of_group_cards:
  "map_of (group_cards cs g) k =
     (if map_of g k = None \<and> filter (\<lambda>c. numericRank c = k) cs = [] then None
      else Some ((case map_of g k of None \<Rightarrow> [] | Some grp \<Rightarrow> grp)
                 @ map Some (filter (\<lambda>c. numericRank c = k) cs)))"
proof (induction cs arbitrary: g)
  case Nil
  then show ?case by (auto simp: group_cards_def)
next
  case (Cons c cs)
  have "group_cards (c # cs) g =
          group_cards cs (AList.update (numericRank c)
             ((case map_of g (numericRank c) of None \<Rightarrow> [] | Some grp \<Rightarrow> grp) @ [Some c]) g)"
    by (simp add: group_cards_def)
  then show ?case
    by (auto simp: Cons.IH update_conv' split: option.splits)
qed

lemma keys_group_cards: "fst ` set (group_cards cs []) = numericRank ` set cs"
proof -
  have "k \<in> fst ` set (group_cards cs []) \<longleftrightarrow> k \<in> numericRank ` set cs" for k
  proof -
    have "k \<in> fst ` set (group_cards cs []) \<longleftrightarrow> map_of (group_cards cs []) k \<noteq> None"
      by (simp add: map_of_eq_None_iff)
    also have "\<dots> \<longleftrightarrow> k \<in> numericRank ` set cs"
      by (auto simp: map_of_group_cards filter_empty_conv)
    finally show ?thesis .
  qed
  then show ?thesis by blast
qed

lemma distinct_group_cards: "distinct (map fst g) \<Longrightarrow> distinct (map fst (group_cards cs g))"
  by (induction cs arbitrary: g) (simp_all add: group_cards_def distinct_update)

lemma group_size_group_cards:
  "group_size (group_cards cs []) k = int (length (filter (\<lambda>c. numericRank c = k) cs))"
  by (simp add: group_size_def map_of_group_cards)

text \<open>The keys in the order of the object, and sorted.\<close>

lemma set_own_entries: "set (own_entries index obj) = set obj"
  by (auto simp: own_entries_def)

lemma distinct_own_entries:
  assumes "distinct (map fst obj)"
  shows "distinct (map fst (own_entries index obj))"
proof -
  from assms have "distinct obj" and "inj_on fst (set obj)"
    by (simp_all add: distinct_map)
  moreover from \<open>distinct obj\<close> have "distinct (own_entries index obj)"
    by (auto simp: own_entries_def)
  ultimately show ?thesis
    by (simp add: distinct_map set_own_entries)
qed

lemma set_js_insort: "set (js_insort cmp x ys) = insert x (set ys)"
  by (induction ys) auto

lemma set_js_sort: "set (js_sort cmp xs) = set xs"
  by (induction xs) (simp_all add: js_sort_def set_js_insort)

lemma js_insort_Num:
  "js_insort (\<lambda>a b. num_sub a b) (Num x) (map Num ys) = map Num (insort x ys)"
  by (induction ys) (simp_all add: SortCompare_def)

lemma js_sort_Num: "js_sort (\<lambda>a b. num_sub a b) (map Num xs) = map Num (sort xs)"
  by (induction xs) (simp_all add: js_sort_def js_insort_Num)

text \<open>The loops over the windows, when every rank read is a key of the groups.\<close>

lemma group_of_key:
  "rnk \<in> fst ` set g \<Longrightarrow> \<exists>grp. group_of g rnk = Inr grp \<and> int (length grp) = group_size g rnk"
  by (auto simp: group_of_def group_size_def map_of_eq_None_iff split: option.splits)

lemma run_multiplier_keys:
  assumes "\<forall>j\<in>set js. ranks ! (i + j) \<in> fst ` set g"
  shows "run_multiplier g ranks i js (m, rr) =
           Inr (m * prod_list (map (\<lambda>j. group_size g (ranks ! (i + j))) js),
                rr @ map (\<lambda>j. ranks ! (i + j)) js)"
  using assms
proof (induction js arbitrary: m rr)
  case Nil
  then show ?case by simp
next
  case (Cons j js)
  then obtain grp where "group_of g (ranks ! (i + j)) = Inr grp"
      "int (length grp) = group_size g (ranks ! (i + j))"
    using group_of_key by (metis list.set_intros(1))
  with Cons show ?case
    by (simp add: Let_def mult.assoc)
qed

lemma run_windows_keys:
  assumes "set ranks \<subseteq> fst ` set g" and "\<forall>i\<in>set is. i + k \<le> length ranks" and "0 < k"
  shows "run_windows k g ranks is (b, bl) =
           Inr (if bl < int k
                then (case find (window_found k ranks) is of
                        None \<Rightarrow> (b, bl)
                      | Some i \<Rightarrow> (Some (window_run k g ranks i), int k))
                else (b, bl))"
  using assms(2)
proof (induction "is" arbitrary: b bl)
  case Nil
  then show ?case by simp
next
  case (Cons i "is")
  then have i: "i + k \<le> length ranks" and rest: "\<forall>i\<in>set is. i + k \<le> length ranks"
    by simp_all
  have "\<forall>j\<in>set [0 ..< k]. ranks ! (i + j) \<in> fst ` set g"
    using i assms(1) by (auto simp: subset_iff)
  then have m: "run_multiplier g ranks i [0 ..< k] (1, []) =
                  Inr (multiplier (window_run k g ranks i), run_ranks (window_run k g ranks i))"
    by (simp add: run_multiplier_keys window_run_def)
  show ?case
  proof (cases "window_found k ranks i")
    case True
    then show ?thesis
      using Cons.IH [OF rest] m
      by (simp add: window_found_def window_run_def)
  next
    case False
    then show ?thesis
      using Cons.IH [OF rest]
      by (simp add: window_found_def)
  qed
qed

lemma first_window_Some:
  assumes "first_window k ranks = Some i"
  shows "i + k \<le> length ranks" and "window_found k ranks i"
    and "\<forall>i'<i. \<not> window_found k ranks i'"
proof -
  from assms have len: "k \<le> length ranks"
    and f: "find (window_found k ranks) [0 ..< Suc (length ranks - k)] = Some i"
    by (simp_all add: first_window_def split: if_splits)
  from f obtain n where n: "n < length [0 ..< Suc (length ranks - k)]"
      "window_found k ranks ([0 ..< Suc (length ranks - k)] ! n)"
      "i = [0 ..< Suc (length ranks - k)] ! n"
      "\<forall>j<n. \<not> window_found k ranks ([0 ..< Suc (length ranks - k)] ! j)"
    unfolding find_Some_iff by blast
  from n(1,3) have i: "i = n" "n < Suc (length ranks - k)"
    by (simp_all del: upt_Suc)
  with len show "i + k \<le> length ranks" by simp
  from n(2,3) show "window_found k ranks i" by simp
  show "\<forall>i'<i. \<not> window_found k ranks i'"
  proof (intro allI impI)
    fix i' assume "i' < i"
    with n(4) i have "\<not> window_found k ranks ([0 ..< Suc (length ranks - k)] ! i')"
      by blast
    moreover have "[0 ..< Suc (length ranks - k)] ! i' = i'"
      using \<open>i' < i\<close> i by (simp del: upt_Suc)
    ultimately show "\<not> window_found k ranks i'" by simp
  qed
qed

lemma first_window_None:
  assumes "first_window k ranks = None" and "i + k \<le> length ranks"
  shows "\<not> window_found k ranks i"
proof -
  from assms have "find (window_found k ranks) [0 ..< Suc (length ranks - k)] = None"
    by (simp add: first_window_def split: if_splits)
  then have "\<forall>x\<in>set [0 ..< Suc (length ranks - k)]. \<not> window_found k ranks x"
    unfolding find_None_iff by blast
  moreover have "i \<in> set [0 ..< Suc (length ranks - k)]"
    using assms(2) by (simp del: upt_Suc)
  ultimately show ?thesis by blast
qed

lemma run_stage:
  assumes "set ranks \<subseteq> fst ` set g" and "0 < k"
  shows "(if bl < int k \<and> length ranks \<ge> k
          then run_windows k g ranks [0 ..< Suc (length ranks - k)] (b, bl)
          else Inr (b, bl))
         = Inr (if bl < int k
                then (case first_window k ranks of
                        None \<Rightarrow> (b, bl)
                      | Some i \<Rightarrow> (Some (window_run k g ranks i), int k))
                else (b, bl))"
proof (cases "length ranks \<ge> k")
  case True
  then have "\<forall>i\<in>set [0 ..< Suc (length ranks - k)]. i + k \<le> length ranks"
    by (auto simp del: upt_Suc)
  from run_windows_keys [OF assms(1) this assms(2)] True show ?thesis
    by (simp add: first_window_def del: upt_Suc)
next
  case False
  then show ?thesis
    by (simp add: first_window_def)
qed

lemma collect_run_cards_keys:
  assumes "set rs \<subseteq> fst ` set g"
  shows "collect_run_cards g rs acc = Inr (acc @ concat (map (group_list g) rs))"
  using assms
proof (induction rs arbitrary: acc)
  case Nil
  then show ?case by simp
next
  case (Cons r rs)
  then have "r \<in> fst ` set g" by simp
  then obtain grp where "map_of g r = Some grp"
    by (metis map_of_eq_None_iff not_None_eq)
  with Cons show ?case
    by (simp add: group_of_def group_list_def)
qed

lemma run_ranks_window_run:
  "i + k \<le> length ranks \<Longrightarrow> set (run_ranks (window_run k g ranks i)) \<subseteq> set ranks"
  by (auto simp: window_run_def)

lemma run_ranks_best_window:
  assumes "best_window g ranks = Some best"
  shows "set (run_ranks best) \<subseteq> set ranks"
proof -
  from assms obtain k i where "best = window_run k g ranks i" "first_window k ranks = Some i"
    by (auto simp: best_window_def split: option.splits)
  then show ?thesis
    using first_window_Some(1) run_ranks_window_run by blast
qed

lemma set_sorted_ranks: "set (sorted_ranks g) = fst ` set g"
  by (simp add: sorted_ranks_def set_js_sort set_own_entries)

lemma scoreRuns_present:
  assumes "3 \<le> length cs"
  shows "scoreRuns (map Some cs) =
           Inr (runs_report (group_cards cs [])
                  (best_window (group_cards cs []) (sorted_ranks (group_cards cs []))))"
proof -
  let ?g = "group_cards cs []"
  let ?rs = "sorted_ranks ?g"
  have keys: "set ?rs \<subseteq> fst ` set ?g"
    by (simp add: set_sorted_ranks)
  have s5: "(if length ?rs \<ge> 5
             then run_windows 5 ?g ?rs [0 ..< Suc (length ?rs - 5)] (None, 0)
             else Inr (None, 0))
            = Inr (case first_window 5 ?rs of
                     None \<Rightarrow> (None, 0)
                   | Some i \<Rightarrow> (Some (window_run 5 ?g ?rs i), 5))"
    using run_stage [OF keys, of 5 0 None] by (simp cong: option.case_cong)
  have s4: "(if bl < 4 \<and> length ?rs \<ge> 4
             then run_windows 4 ?g ?rs [0 ..< Suc (length ?rs - 4)] (b, bl)
             else Inr (b, bl))
            = Inr (if bl < 4
                   then (case first_window 4 ?rs of
                           None \<Rightarrow> (b, bl)
                         | Some i \<Rightarrow> (Some (window_run 4 ?g ?rs i), 4))
                   else (b, bl))" for b bl
    using run_stage [OF keys, of 4 bl b] by (simp cong: option.case_cong)
  have s3: "(if bl < 3 \<and> length ?rs \<ge> 3
             then run_windows 3 ?g ?rs [0 ..< Suc (length ?rs - 3)] (b, bl)
             else Inr (b, bl))
            = Inr (if bl < 3
                   then (case first_window 3 ?rs of
                           None \<Rightarrow> (b, bl)
                         | Some i \<Rightarrow> (Some (window_run 3 ?g ?rs i), 3))
                   else (b, bl))" for b bl
    using run_stage [OF keys, of 3 bl b] by (simp cong: option.case_cong)
  have c: "best_window ?g ?rs = Some best \<Longrightarrow>
             collect_run_cards ?g (run_ranks best) [] = Inr (concat (map (group_list ?g) (run_ranks best)))"
    for best
    using collect_run_cards_keys [of "run_ranks best" ?g "[]"] run_ranks_best_window [of ?g ?rs best] keys
    by auto
  have "scoreRuns (map Some cs) =
          (case best_window ?g ?rs of
             None \<Rightarrow> Inr \<lparr>points = 0, runs_found = []\<rparr>
           | Some best \<Rightarrow>
               (case collect_run_cards ?g (run_ranks best) [] of
                  Inl e \<Rightarrow> Inl e
                | Inr runCards \<Rightarrow>
                    Inr \<lparr>points = run_length best * multiplier best,
                         runs_found = [\<lparr>run_length = run_length best,
                                        multiplier = multiplier best,
                                        run_cards = map formatCard runCards\<rparr>]\<rparr>))"
    using assms
    unfolding scoreRuns_def runs_groups_present Let_def sorted_ranks_def [symmetric]
    by (simp only: s5 s4 s3 sum.case length_map)
       (simp add: best_window_def split: option.splits)
  then show ?thesis
    by (auto simp: runs_report_def c split: option.splits)
qed

subsection \<open>Windows of a sorted list of distinct values\<close>

lemma nth_strict_mono:
  fixes rs :: "int list"
  assumes "sorted rs" "distinct rs" "i < j" "j < length rs"
  shows "rs ! i < rs ! j"
proof -
  from assms(1,2) have "sorted_wrt (<) rs"
    by (simp add: strict_sorted_iff)
  with assms(3,4) show ?thesis
    by (simp add: sorted_wrt_iff_nth_less)
qed

lemma nth_gap:
  fixes rs :: "int list"
  assumes "sorted rs" "distinct rs"
  shows "i + d < length rs \<Longrightarrow> rs ! i + int d \<le> rs ! (i + d)"
proof (induction d)
  case 0
  then show ?case by simp
next
  case (Suc d)
  then have "rs ! (i + d) < rs ! (i + Suc d)"
    using nth_strict_mono [OF assms, of "i + d" "i + Suc d"] by simp
  with Suc show ?case by simp
qed

lemma window_consecutive:
  fixes rs :: "int list"
  assumes "sorted rs" "distinct rs" and "i + k \<le> length rs" and "0 < k"
    and "rs ! (i + (k - 1)) = rs ! i + (int k - 1)" and "j < k"
  shows "rs ! (i + j) = rs ! i + int j"
proof -
  have "rs ! i + int j \<le> rs ! (i + j)"
    using nth_gap [OF assms(1,2), of i j] assms(3,6) by simp
  moreover have "rs ! (i + j) + int (k - 1 - j) \<le> rs ! (i + j + (k - 1 - j))"
    using nth_gap [OF assms(1,2), of "i + j" "k - 1 - j"] assms(3,4,6) by simp
  moreover have "i + j + (k - 1 - j) = i + (k - 1)"
    using assms(4,6) by simp
  ultimately show ?thesis
    using assms(4,5,6) by (simp add: of_nat_diff)
qed

lemma run_window_index:
  fixes rs :: "int list"
  assumes "sorted rs" "distinct rs" and "{s ..< s + int k} \<subseteq> set rs" and "0 < k"
  shows "\<exists>i. i + k \<le> length rs \<and> rs ! i = s \<and> (\<forall>j<k. rs ! (i + j) = s + int j)"
proof -
  from assms(3,4) have "s \<in> set rs" by auto
  then obtain i where i: "i < length rs" "rs ! i = s"
    by (auto simp: in_set_conv_nth)
  have step: "j < k \<Longrightarrow> i + j < length rs \<and> rs ! (i + j) = s + int j" for j
  proof (induction j)
    case 0
    with i show ?case by simp
  next
    case (Suc j)
    then have ih: "i + j < length rs" "rs ! (i + j) = s + int j"
      by simp_all
    from Suc.prems assms(3) have "s + int (Suc j) \<in> set rs" by auto
    then obtain m where m: "m < length rs" "rs ! m = s + int (Suc j)"
      by (auto simp: in_set_conv_nth)
    have "i + j < m"
    proof (rule ccontr)
      assume "\<not> i + j < m"
      then have "m \<le> i + j" by simp
      then have "rs ! m \<le> rs ! (i + j)"
        using assms(1) ih(1) by (simp add: sorted_nth_mono)
      with m ih show False by simp
    qed
    with m have len: "i + Suc j < length rs" by simp
    have "rs ! (i + Suc j) \<le> rs ! m"
      using assms(1) \<open>i + j < m\<close> m(1) by (simp add: sorted_nth_mono)
    moreover have "rs ! (i + j) < rs ! (i + Suc j)"
      using nth_strict_mono [OF assms(1,2), of "i + j" "i + Suc j"] len by simp
    ultimately have "rs ! (i + Suc j) = s + int (Suc j)"
      using m ih by simp
    with len show ?case by simp
  qed
  have "i + (k - 1) < length rs"
    using step [of "k - 1"] assms(4) by simp
  then have "i + k \<le> length rs"
    using assms(4) by simp
  with i step show ?thesis by blast
qed

lemma prod_list_upt:
  fixes f :: "nat \<Rightarrow> int"
  shows "prod_list (map f [0 ..< k]) = (\<Prod>j\<in>{0 ..< k}. f j)"
  by (induction k) (simp_all add: atLeastLessThanSuc)

lemma prod_shift:
  fixes f :: "int \<Rightarrow> int"
  shows "(\<Prod>j\<in>{0 ..< k}. f (s + int j)) = (\<Prod>v\<in>{s ..< s + int k}. f v)"
proof -
  have "(\<lambda>j. s + int j) ` {0 ..< k} = {s ..< s + int k}"
  proof -
    have "(\<lambda>j. s + int j) ` {0 ..< k} = (\<lambda>x. x + s) ` int ` {0 ..< k}"
      by (auto simp: image_image add.commute)
    also have "\<dots> = {s ..< s + int k}"
      using image_add_int_atLeastLessThan [of s "s + int k"]
      by (simp add: image_int_atLeastLessThan)
    finally show ?thesis .
  qed
  moreover have "inj_on (\<lambda>j. s + int j) {0 ..< k}"
    by (simp add: inj_on_def)
  ultimately show ?thesis
    using prod.reindex [of "\<lambda>j. s + int j" "{0 ..< k}" f] by (simp add: comp_def)
qed

text \<open>On cards of the deck the keys of the groups are the sequence values.\<close>

lemma numericRank_deck: "c \<in> set DECK \<Longrightarrow> numericRank c = Num (sequenceValue c)"
  by (simp add: numericRank_def in_DECK_iff getNumericRank_rank)

lemma group_size_deck:
  assumes "set cs \<subseteq> set DECK"
  shows "group_size (group_cards cs []) (Num v) = int (value_count cs v)"
proof -
  have "filter (\<lambda>c. numericRank c = Num v) cs = filter (\<lambda>c. sequenceValue c = v) cs"
    using assms by (intro filter_cong) (auto simp: numericRank_deck)
  then show ?thesis
    by (simp add: group_size_group_cards value_count_def)
qed

lemma sorted_ranks_deck:
  assumes "set cs \<subseteq> set DECK"
  shows "\<exists>rs. sorted_ranks (group_cards cs []) = map Num rs \<and> sorted rs \<and> distinct rs
              \<and> set rs = sequenceValue ` set cs"
proof -
  let ?g = "group_cards cs []"
  let ?keys = "map fst (own_entries number_index ?g)"
  let ?un = "\<lambda>k. case k of Num v \<Rightarrow> v | NaN \<Rightarrow> 0"
  have set_keys: "set ?keys = Num ` sequenceValue ` set cs"
  proof -
    have "set ?keys = numericRank ` set cs"
      by (simp add: set_own_entries keys_group_cards)
    also have "\<dots> = Num ` sequenceValue ` set cs"
      using assms by (auto simp: numericRank_deck image_iff subset_iff)
    finally show ?thesis .
  qed
  have dist_keys: "distinct ?keys"
    by (simp add: distinct_own_entries distinct_group_cards)
  have keys_Num: "?keys = map Num (map ?un ?keys)"
  proof -
    have "\<forall>k\<in>set ?keys. Num (?un k) = k"
      unfolding set_keys by auto
    then have "map (\<lambda>k. Num (?un k)) ?keys = ?keys"
      by (simp add: map_idI)
    then show ?thesis by (simp add: comp_def)
  qed
  define ys where "ys = map ?un ?keys"
  have keys_ys: "?keys = map Num ys"
    using keys_Num by (simp add: ys_def)
  have "sorted_ranks ?g = map Num (sort ys)"
    unfolding sorted_ranks_def keys_ys by (rule js_sort_Num)
  moreover have "distinct ys"
    using dist_keys unfolding keys_ys by (simp add: distinct_map)
  moreover have "set ys = sequenceValue ` set cs"
  proof -
    have "Num ` set ys = Num ` sequenceValue ` set cs"
      using set_keys unfolding keys_ys by simp
    then show ?thesis
      by (simp add: inj_image_eq_iff inj_on_def)
  qed
  ultimately show ?thesis
    by (intro exI [of _ "sort ys"]) simp
qed

lemma window_found_Num:
  assumes "i + k \<le> length rs" and "0 < k"
  shows "window_found k (map Num rs) i \<longleftrightarrow> rs ! (i + (k - 1)) = rs ! i + (int k - 1)"
proof -
  from assms have "i + (k - 1) < length rs" "i < length rs"
    by simp_all
  then show ?thesis
    by (simp add: window_found_def)
qed

lemma window_run_at:
  assumes "sorted rs" "distinct rs" and "set rs = sequenceValue ` set cs"
    and "i + k \<le> length rs" and "0 < k" and "window_found k (map Num rs) i"
  shows "run_at cs (rs ! i) k"
proof -
  from assms(4,5,6) have w: "rs ! (i + (k - 1)) = rs ! i + (int k - 1)"
    by (simp add: window_found_Num)
  have "v \<in> set rs" if "v \<in> {rs ! i ..< rs ! i + int k}" for v
  proof -
    define j where "j = nat (v - rs ! i)"
    with that have j: "j < k" "v = rs ! i + int j"
      by auto
    then have "rs ! (i + j) = v"
      using window_consecutive [OF assms(1,2,4,5) w, of j] by simp
    moreover have "i + j < length rs"
      using j(1) assms(4) by simp
    ultimately show ?thesis
      using nth_mem by blast
  qed
  then show ?thesis
    by (auto simp: run_at_def assms(3) [symmetric])
qed

lemma run_at_window:
  assumes "sorted rs" "distinct rs" and "set rs = sequenceValue ` set cs"
    and "0 < k" and "run_at cs s k"
  shows "\<exists>i. i + k \<le> length rs \<and> window_found k (map Num rs) i \<and> rs ! i = s"
proof -
  from assms(3,5) have "{s ..< s + int k} \<subseteq> set rs"
    by (simp add: run_at_def)
  from run_window_index [OF assms(1,2) this assms(4)]
  obtain i where i: "i + k \<le> length rs" "rs ! i = s" "\<forall>j<k. rs ! (i + j) = s + int j"
    by blast
  from i(3) [rule_format, of "k - 1"] assms(4) have "rs ! (i + (k - 1)) = s + (int k - 1)"
    by (simp add: of_nat_diff)
  with i(1,2) assms(4) have "window_found k (map Num rs) i"
    by (simp add: window_found_Num)
  with i show ?thesis by blast
qed

lemma run_at_mono: "run_at cs s n \<Longrightarrow> k \<le> n \<Longrightarrow> run_at cs s k"
  by (auto simp: run_at_def)

lemma multiplier_window:
  assumes "set cs \<subseteq> set DECK" and "sorted rs" "distinct rs"
    and "i + k \<le> length rs" and "0 < k" and "window_found k (map Num rs) i"
  shows "multiplier (window_run k (group_cards cs []) (map Num rs) i)
           = (\<Prod>v\<in>{rs ! i ..< rs ! i + int k}. int (value_count cs v))"
proof -
  from assms(4,5,6) have w: "rs ! (i + (k - 1)) = rs ! i + (int k - 1)"
    by (simp add: window_found_Num)
  have "group_size (group_cards cs []) (map Num rs ! (i + j)) = int (value_count cs (rs ! i + int j))"
    if "j < k" for j
  proof -
    from that assms(4) have "i + j < length rs" by simp
    then have "map Num rs ! (i + j) = Num (rs ! (i + j))" by simp
    also have "rs ! (i + j) = rs ! i + int j"
      using window_consecutive [OF assms(2,3,4,5) w that] .
    finally show ?thesis
      by (simp add: group_size_deck [OF assms(1)])
  qed
  then have "map (\<lambda>j. group_size (group_cards cs []) (map Num rs ! (i + j))) [0 ..< k]
               = map (\<lambda>j. int (value_count cs (rs ! i + int j))) [0 ..< k]"
    by (intro map_cong) simp_all
  then show ?thesis
    using prod_shift [of "\<lambda>v. int (value_count cs v)" "rs ! i" k]
    by (simp add: window_run_def prod_list_upt)
qed

lemma best_window_at:
  assumes "k = 3 \<or> k = 4 \<or> k = 5"
    and "\<forall>k'. k < k' \<and> k' \<le> 5 \<longrightarrow> first_window k' ranks = None"
    and "first_window k ranks = Some i"
  shows "best_window g ranks = Some (window_run k g ranks i)"
proof -
  from assms(1) consider "k = 3" | "k = 4" | "k = 5" by blast
  then show ?thesis
  proof cases
    case 1
    with assms(2) have "first_window 5 ranks = None" "first_window 4 ranks = None"
      by simp_all
    with assms(3) 1 show ?thesis by (simp add: best_window_def)
  next
    case 2
    with assms(2) have "first_window 5 ranks = None"
      by simp
    with assms(3) 2 show ?thesis by (simp add: best_window_def)
  next
    case 3
    with assms(3) show ?thesis by (simp add: best_window_def)
  qed
qed

subsection \<open>The longest run\<close>

text \<open>
  C4. On a complete hand the runs evaluator scores 0 when no three consecutive sequence
  values are held. Otherwise it scores the longest run only: for a run of length \<open>n\<close> of at
  least 3 from the value \<open>s\<close>, such that no run of length \<open>n + 1\<close> is held, the points are
  \<open>n\<close> times the product of the numbers of cards held of each of the values of the run, and
  the result reports one run, of that length and with that multiplier.
\<close>

theorem scoreRuns_longest_run:
  assumes "hand cs"
  shows "\<exists>r. scoreRuns (map Some cs) = Inr r
           \<and> ((\<forall>s. \<not> run_at cs s 3) \<longrightarrow> points r = 0 \<and> runs_found r = [])
           \<and> (\<forall>s n. 3 \<le> n \<and> run_at cs s n \<and> (\<forall>s'. \<not> run_at cs s' (Suc n)) \<longrightarrow>
                 points r = int n * (\<Prod>v\<in>{s ..< s + int n}. int (value_count cs v))
                 \<and> map run_length (runs_found r) = [int n]
                 \<and> map multiplier (runs_found r) = [\<Prod>v\<in>{s ..< s + int n}. int (value_count cs v)])"
proof -
  from assms have len: "length cs = 5" and deck: "set cs \<subseteq> set DECK"
    by (simp_all add: hand_def)
  let ?g = "group_cards cs []"
  from sorted_ranks_deck [OF deck] obtain rs where
    rs: "sorted_ranks ?g = map Num rs" and srt: "sorted rs" and dst: "distinct rs"
    and set_rs: "set rs = sequenceValue ` set cs"
    by blast
  let ?r = "runs_report ?g (best_window ?g (map Num rs))"
  have res: "scoreRuns (map Some cs) = Inr ?r"
    using scoreRuns_present [of cs] len by (simp add: rs)
  have len_rs: "length rs \<le> 5"
  proof -
    have "length rs = card (sequenceValue ` set cs)"
      using dst set_rs distinct_card by fastforce
    also have "\<dots> \<le> card (set cs)"
      by (rule card_image_le) simp
    also have "\<dots> \<le> length cs"
      by (rule card_length)
    finally show ?thesis using len by simp
  qed
  have none: "first_window k (map Num rs) = None" if "0 < k" and "\<forall>s. \<not> run_at cs s k" for k
  proof (rule ccontr)
    assume "first_window k (map Num rs) \<noteq> None"
    then obtain i where "first_window k (map Num rs) = Some i" by blast
    from first_window_Some(1,2) [OF this]
    have "i + k \<le> length rs" "window_found k (map Num rs) i" by simp_all
    from window_run_at [OF srt dst set_rs this(1) that(1) this(2)] that(2)
    show False by blast
  qed
  have zero: "(\<forall>s. \<not> run_at cs s 3) \<longrightarrow> points ?r = 0 \<and> runs_found ?r = []"
  proof
    assume no3: "\<forall>s. \<not> run_at cs s 3"
    then have "\<forall>s. \<not> run_at cs s 4" "\<forall>s. \<not> run_at cs s 5"
      using run_at_mono [of cs _ 4 3] run_at_mono [of cs _ 5 3] by auto
    with no3 have "first_window 3 (map Num rs) = None" "first_window 4 (map Num rs) = None"
        "first_window 5 (map Num rs) = None"
      using none by simp_all
    then show "points ?r = 0 \<and> runs_found ?r = []"
      by (simp add: best_window_def runs_report_def)
  qed
  have best: "points ?r = int n * (\<Prod>v\<in>{s ..< s + int n}. int (value_count cs v))
              \<and> map run_length (runs_found ?r) = [int n]
              \<and> map multiplier (runs_found ?r) = [\<Prod>v\<in>{s ..< s + int n}. int (value_count cs v)]"
    if n3: "3 \<le> n" and run: "run_at cs s n" and longest: "\<forall>s'. \<not> run_at cs s' (Suc n)" for s n
  proof -
    from n3 have n0: "0 < n" by simp
    from run_at_window [OF srt dst set_rs n0 run]
    obtain i where i: "i + n \<le> length rs" "window_found n (map Num rs) i" "rs ! i = s"
      by blast
    with len_rs n3 have n5: "n = 3 \<or> n = 4 \<or> n = 5" by auto
    have longer: "\<forall>k'. n < k' \<and> k' \<le> 5 \<longrightarrow> first_window k' (map Num rs) = None"
    proof (intro allI impI)
      fix k' assume k': "n < k' \<and> k' \<le> 5"
      then have "\<forall>s'. \<not> run_at cs s' k'"
        using longest run_at_mono [of cs _ k' "Suc n"] by auto
      with k' show "first_window k' (map Num rs) = None"
        using none [of k'] by simp
    qed
    have "first_window n (map Num rs) \<noteq> None"
      using first_window_None [of n "map Num rs" i] i(1,2) by auto
    then obtain i0 where i0: "first_window n (map Num rs) = Some i0" by blast
    from first_window_Some [OF i0]
    have b0: "i0 + n \<le> length rs" and w0: "window_found n (map Num rs) i0"
      and first: "\<forall>i'<i0. \<not> window_found n (map Num rs) i'"
      by simp_all
    from first i(2) have "i0 \<le> i"
      by (meson not_le)
    have "i0 = i"
    proof (rule ccontr)
      assume "i0 \<noteq> i"
      with \<open>i0 \<le> i\<close> have lt: "i0 < i" by simp
      from i(1) len_rs n3 b0 lt have near: "i < i0 + n" by linarith
      from w0 b0 n0 have e0: "rs ! (i0 + (n - 1)) = rs ! i0 + (int n - 1)"
        by (simp add: window_found_Num)
      from i(1,2) n0 have e: "rs ! (i + (n - 1)) = rs ! i + (int n - 1)"
        by (simp add: window_found_Num)
      have "rs ! (i0 + (i - i0)) = rs ! i0 + int (i - i0)"
        using window_consecutive [OF srt dst b0 n0 e0, of "i - i0"] near lt by simp
      then have a: "rs ! i = rs ! i0 + int (i - i0)"
        using lt by simp
      have "rs ! (i + (i0 + n - i)) = rs ! i + int (i0 + n - i)"
        using window_consecutive [OF srt dst i(1) n0 e, of "i0 + n - i"] near lt by simp
      then have "rs ! (i0 + n) = rs ! i + int (i0 + n - i)"
        using near lt by simp
      with a have "rs ! (i0 + n) = rs ! i0 + int n"
        using near lt by simp
      moreover have "i0 + Suc n \<le> length rs"
        using i(1) lt by simp
      ultimately have "window_found (Suc n) (map Num rs) i0"
        by (simp add: window_found_Num)
      from window_run_at [OF srt dst set_rs \<open>i0 + Suc n \<le> length rs\<close> _ this]
      have "run_at cs (rs ! i0) (Suc n)" by simp
      with longest show False by blast
    qed
    with i0 have "first_window n (map Num rs) = Some i" by simp
    from best_window_at [OF n5 longer this]
    have bw: "best_window ?g (map Num rs) = Some (window_run n ?g (map Num rs) i)" .
    have m: "multiplier (window_run n ?g (map Num rs) i)
               = (\<Prod>v\<in>{s ..< s + int n}. int (value_count cs v))"
      using multiplier_window [OF deck srt dst i(1) n0 i(2)] i(3) by simp
    have l: "run_length (window_run n ?g (map Num rs) i) = int n"
      by (simp add: window_run_def)
    show ?thesis
      by (simp add: bw runs_report_def m l)
  qed
  from res zero best show ?thesis
    by blast
qed

lemma sequenceValue_card_of:
  "sequenceValue (card_of ''A'' s) = 1" "sequenceValue (card_of ''2'' s) = 2"
  "sequenceValue (card_of ''3'' s) = 3" "sequenceValue (card_of ''4'' s) = 4"
  "sequenceValue (card_of ''5'' s) = 5" "sequenceValue (card_of ''6'' s) = 6"
  "sequenceValue (card_of ''7'' s) = 7" "sequenceValue (card_of ''8'' s) = 8"
  "sequenceValue (card_of ''9'' s) = 9" "sequenceValue (card_of ''10'' s) = 10"
  "sequenceValue (card_of ''J'' s) = 11" "sequenceValue (card_of ''Q'' s) = 12"
  "sequenceValue (card_of ''K'' s) = 13"
  by (simp_all add: sequenceValue_def card_of_def RANKS_def)

lemma values_scenario_B: "sequenceValue ` set scenario_B = {3, 4, 5, 6}"
  by (simp add: scenario_B_def sequenceValue_card_of)

theorem scoreRuns_longest_run_witness:
  "\<exists>r. scoreRuns (map Some scenario_B) = Inr r \<and> points r = 8
       \<and> map run_length (runs_found r) = [4] \<and> map multiplier (runs_found r) = [2]"
proof -
  have i: "{3 ..< 7} = {3, 4, 5, 6 :: int}"
    by auto
  have run: "run_at scenario_B 3 4"
    by (simp add: run_at_def values_scenario_B i)
  have longest: "\<forall>s'. \<not> run_at scenario_B s' (Suc 4)"
  proof
    fix s'
    show "\<not> run_at scenario_B s' (Suc 4)"
    proof
      assume "run_at scenario_B s' (Suc 4)"
      then have "{s' ..< s' + 5} \<subseteq> {3, 4, 5, 6}"
        by (simp add: run_at_def values_scenario_B)
      moreover have "s' \<in> {s' ..< s' + 5}" "s' + 4 \<in> {s' ..< s' + 5}"
        by simp_all
      ultimately have "s' \<in> {3, 4, 5, 6}" "s' + 4 \<in> {3, 4, 5, 6}"
        by blast+
      then show False by auto
    qed
  qed
  have p: "(\<Prod>v\<in>{3 ..< 3 + int 4}. int (value_count scenario_B v)) = 2"
    by (simp add: i value_count_def scenario_B_def sequenceValue_card_of)
  from scoreRuns_longest_run [OF hand_scenario_B] obtain r where
    r: "scoreRuns (map Some scenario_B) = Inr r"
    and "\<forall>s n. 3 \<le> n \<and> run_at scenario_B s n \<and> (\<forall>s'. \<not> run_at scenario_B s' (Suc n)) \<longrightarrow>
           points r = int n * (\<Prod>v\<in>{s ..< s + int n}. int (value_count scenario_B v))
           \<and> map run_length (runs_found r) = [int n]
           \<and> map multiplier (runs_found r) = [\<Prod>v\<in>{s ..< s + int n}. int (value_count scenario_B v)]"
    by blast
  from this(2) [rule_format, of 4 3] run longest
  have "points r = int 4 * (\<Prod>v\<in>{3 ..< 3 + int 4}. int (value_count scenario_B v))
        \<and> map run_length (runs_found r) = [int 4]
        \<and> map multiplier (runs_found r) = [\<Prod>v\<in>{3 ..< 3 + int 4}. int (value_count scenario_B v)]"
    by simp
  with r show ?thesis
    unfolding p by simp
qed

section \<open>The main function\<close>

subsection \<open>Five present cards never throw\<close>

lemma getCardValue_Some: "\<exists>v. getCardValue (Some c) = Inr v"
  by (simp add: getCardValue_def)

lemma fifteens_combo_returns:
  assumes "\<forall>i\<in>set is. i < length cs"
  shows "\<exists>r. fifteens_combo (map Some cs) msk is acc = Inr r"
  using assms
proof (induction "is" arbitrary: acc)
  case Nil
  then show ?case by (cases acc) simp
next
  case (Cons i "is")
  obtain combo sm where acc: "acc = (combo, sm)" by (cases acc)
  from Cons.prems have i: "i < length cs" and rest: "\<forall>i\<in>set is. i < length cs"
    by simp_all
  obtain v where v: "getCardValue (Some (cs ! i)) = Inr v"
    using getCardValue_Some by blast
  show ?case
    using Cons.IH [OF rest] i
    by (simp add: acc js_index_map_Some v)
qed

lemma fifteens_masks_returns: "\<exists>r. fifteens_masks (map Some cs) ms acc = Inr r"
proof (induction ms arbitrary: acc)
  case Nil
  then show ?case by simp
next
  case (Cons m ms)
  obtain combo sm where
    "fifteens_combo (map Some cs) m [0 ..< length (map Some cs)] ([], Num 0) = Inr (combo, sm)"
    using fifteens_combo_returns [of "[0 ..< length cs]" cs m "([], Num 0)"] by auto
  with Cons.IH show ?case by simp
qed

lemma scoreFifteens_returns: "\<exists>r. scoreFifteens (map Some cs) = Inr r"
  by (simp add: scoreFifteens_def Let_def fifteens_masks_returns)

lemma scorePairs_returns: "\<exists>r. scorePairs (map Some cs) = Inr r"
  by (simp add: scorePairs_def pairs_count_present)

lemma scoreRuns_returns: "\<exists>r. scoreRuns (map Some cs) = Inr r"
proof (cases "3 \<le> length cs")
  case True
  then show ?thesis by (simp add: scoreRuns_present)
next
  case False
  then show ?thesis by (simp add: scoreRuns_def)
qed

lemma length5_cases:
  assumes "length cs = 5"
  obtains a b c d e where "cs = [a, b, c, d, e]"
proof -
  from assms obtain a cs1 where "cs = a # cs1" "length cs1 = 4"
    by (cases cs) auto
  moreover then obtain b cs2 where "cs1 = b # cs2" "length cs2 = 3"
    by (cases cs1) auto
  moreover then obtain c cs3 where "cs2 = c # cs3" "length cs3 = 2"
    by (cases cs2) auto
  moreover then obtain d cs4 where "cs3 = d # cs4" "length cs4 = 1"
    by (cases cs3) auto
  moreover then obtain e where "cs4 = [e]"
    by (cases cs4) auto
  ultimately show ?thesis using that by blast
qed

lemma scoreFlush_returns:
  assumes "length cs = 5"
  shows "\<exists>r. scoreFlush (map Some cs) isCrib = Inr r"
proof -
  from assms obtain a b c d e where cs: "cs = [a, b, c, d, e]"
    by (rule length5_cases)
  have hc: "slice (map Some cs) 0 (Some 4) = map Some [a, b, c, d]"
    by (simp add: cs slice_def)
  show ?thesis
    unfolding scoreFlush_def Let_def hc every_suit_all
    by (simp add: cs js_index_def)
qed

lemma find_first_present:
  "find_first (\<lambda>crd. case crd of None \<Rightarrow> Inl TypeError | Some c \<Rightarrow> Inr (P c)) (map Some cs)
     = Inr (map_option Some (find P cs))"
  by (induction cs) simp_all

lemma scoreNobs_returns:
  assumes "length cs = 5"
  shows "\<exists>r. scoreNobs (map Some cs) = Inr r"
proof -
  from assms obtain a b c d e where cs: "cs = [a, b, c, d, e]"
    by (rule length5_cases)
  have hc: "slice (map Some cs) 0 (Some 4) = map Some [a, b, c, d]"
    by (simp add: cs slice_def)
  have cut: "js_index (map Some cs) 4 = Some e"
    by (simp add: cs js_index_def)
  show ?thesis
    unfolding scoreNobs_def Let_def hc cut find_first_present
    by (simp add: cs split: option.splits)
qed

text \<open>
  C8. On five present cards every evaluator returns a result, the main function returns a
  report that holds these five results, and the total of the report is the sum of their
  points.
\<close>

theorem scoreHand_total:
  assumes "length cs = 5"
  shows "\<exists>f p r fl n rep.
           scoreFifteens (map Some cs) = Inr f \<and> scorePairs (map Some cs) = Inr p
         \<and> scoreRuns (map Some cs) = Inr r \<and> scoreFlush (map Some cs) isCrib = Inr fl
         \<and> scoreNobs (map Some cs) = Inr n
         \<and> scoreHand (Some (map Some cs)) isCrib = Inr (Some rep)
         \<and> fifteens rep = f \<and> pairs rep = p \<and> runs rep = r \<and> flush rep = fl \<and> nobs rep = n
         \<and> total rep = points f + points p + points r + points fl + points n"
proof -
  obtain f p r fl n where
    "scoreFifteens (map Some cs) = Inr f" "scorePairs (map Some cs) = Inr p"
    "scoreRuns (map Some cs) = Inr r" "scoreFlush (map Some cs) isCrib = Inr fl"
    "scoreNobs (map Some cs) = Inr n"
    using scoreFifteens_returns scorePairs_returns scoreRuns_returns
      scoreFlush_returns [OF assms] scoreNobs_returns [OF assms]
    by metis
  moreover have "\<not> list_ex (\<lambda>c. c = None) (map Some cs)"
    by (simp add: list_ex_iff)
  ultimately show ?thesis
    using assms by (simp add: scoreHand_def)
qed

theorem scoreHand_total_witness:
  "\<exists>f p r fl n rep.
     scoreFifteens (map Some scenario_A) = Inr f \<and> scorePairs (map Some scenario_A) = Inr p
   \<and> scoreRuns (map Some scenario_A) = Inr r \<and> scoreFlush (map Some scenario_A) True = Inr fl
   \<and> scoreNobs (map Some scenario_A) = Inr n
   \<and> scoreHand (Some (map Some scenario_A)) True = Inr (Some rep)
   \<and> fifteens rep = f \<and> pairs rep = p \<and> runs rep = r \<and> flush rep = fl \<and> nobs rep = n
   \<and> total rep = points f + points p + points r + points fl + points n"
  using scoreHand_total [of scenario_A True] by (simp add: scenario_A_def)

text \<open>
  C9. The main function returns \<open>null\<close> when the argument is missing, when the array has
  not exactly five slots and when a slot is empty; on every other input it returns a report.
  It never throws.
\<close>

theorem scoreHand_null_iff_incomplete:
  "(incomplete cards \<longrightarrow> scoreHand cards isCrib = Inr None)
   \<and> (\<not> incomplete cards \<longrightarrow> (\<exists>rep. scoreHand cards isCrib = Inr (Some rep)))"
proof (intro conjI impI)
  assume "incomplete cards"
  then show "scoreHand cards isCrib = Inr None"
    by (auto simp: incomplete_def scoreHand_def list_ex_iff split: option.splits)
next
  assume "\<not> incomplete cards"
  then obtain slots where slots: "cards = Some slots" "length slots = 5" "None \<notin> set slots"
    by (auto simp: incomplete_def split: option.splits)
  define cs where "cs = map the slots"
  have m: "slots = map Some cs"
    using slots(3) unfolding cs_def
    by (induction slots) auto
  have len: "length cs = 5"
    using slots(2) by (simp add: cs_def)
  obtain f p r fl n where
    "scoreFifteens (map Some cs) = Inr f" "scorePairs (map Some cs) = Inr p"
    "scoreRuns (map Some cs) = Inr r" "scoreFlush (map Some cs) isCrib = Inr fl"
    "scoreNobs (map Some cs) = Inr n"
    using scoreFifteens_returns scorePairs_returns scoreRuns_returns
      scoreFlush_returns [OF len] scoreNobs_returns [OF len]
    by metis
  moreover have "\<not> list_ex (\<lambda>c. c = None) (map Some cs)"
    by (simp add: list_ex_iff)
  ultimately show "\<exists>rep. scoreHand cards isCrib = Inr (Some rep)"
    using len by (simp add: scoreHand_def slots(1) m)
qed

theorem scoreHand_null_iff_incomplete_witness:
  "scoreHand None False = Inr None
   \<and> scoreHand (Some absent_cut) False = Inr None
   \<and> scoreHand (Some (map Some (take 4 scenario_A))) False = Inr None
   \<and> (\<exists>rep. scoreHand (Some (map Some scenario_A)) False = Inr (Some rep))"
  using scoreHand_null_iff_incomplete [of None False]
    scoreHand_null_iff_incomplete [of "Some absent_cut" False]
    scoreHand_null_iff_incomplete [of "Some (map Some (take 4 scenario_A))" False]
    scoreHand_null_iff_incomplete [of "Some (map Some scenario_A)" False]
  by (simp add: incomplete_def absent_cut_def scenario_A_def)


section \<open>Empty slots\<close>

lemma js_error_TypeError: "(e :: js_error) = TypeError"
  by (cases e) simp

lemma reads_absent_Nil [simp]: "\<not> reads_absent stop []"
  by (simp add: reads_absent_def)

lemma reads_absent_Cons [simp]:
  "reads_absent stop (x # xs) \<longleftrightarrow>
     (case x of None \<Rightarrow> True | Some c \<Rightarrow> \<not> stop c \<and> reads_absent stop xs)"
proof (cases x)
  case None
  then show ?thesis
    by (auto simp: reads_absent_def intro: exI [of _ 0])
next
  case (Some c)
  show ?thesis
  proof (cases "stop c")
    case True
    have "\<not> reads_absent stop (x # xs)"
    proof
      assume "reads_absent stop (x # xs)"
      then obtain j where j: "j < length (x # xs)" "(x # xs) ! j = None"
          "\<forall>i<j. \<exists>c. (x # xs) ! i = Some c \<and> \<not> stop c"
        unfolding reads_absent_def by blast
      from j(2) Some have "0 < j" by (cases j) auto
      with j(3) Some True show False by fastforce
    qed
    with Some True show ?thesis by simp
  next
    case False
    have "reads_absent stop (x # xs) \<longleftrightarrow> reads_absent stop xs"
    proof
      assume "reads_absent stop (x # xs)"
      then obtain j where j: "j < length (x # xs)" "(x # xs) ! j = None"
          "\<forall>i<j. \<exists>c. (x # xs) ! i = Some c \<and> \<not> stop c"
        unfolding reads_absent_def by blast
      from j(2) Some obtain j' where j': "j = Suc j'" by (cases j) auto
      with j have "j' < length xs" "xs ! j' = None" by simp_all
      moreover have "\<forall>i<j'. \<exists>c. xs ! i = Some c \<and> \<not> stop c"
      proof (intro allI impI)
        fix i assume "i < j'"
        then have "Suc i < j" using j' by simp
        with j(3) show "\<exists>c. xs ! i = Some c \<and> \<not> stop c" by fastforce
      qed
      ultimately show "reads_absent stop xs"
        unfolding reads_absent_def by blast
    next
      assume "reads_absent stop xs"
      then obtain j where j: "j < length xs" "xs ! j = None"
          "\<forall>i<j. \<exists>c. xs ! i = Some c \<and> \<not> stop c"
        unfolding reads_absent_def by blast
      have "\<forall>i<Suc j. \<exists>c. (x # xs) ! i = Some c \<and> \<not> stop c"
      proof (intro allI impI)
        fix i assume "i < Suc j"
        then show "\<exists>c. (x # xs) ! i = Some c \<and> \<not> stop c"
          using j(3) Some False by (cases i) auto
      qed
      with j(1,2) show "reads_absent stop (x # xs)"
        unfolding reads_absent_def by (intro exI [of _ "Suc j"]) simp
    qed
    with Some False show ?thesis by simp
  qed
qed

lemma every_slots:
  "every (\<lambda>crd. case crd of None \<Rightarrow> Inl TypeError | Some c \<Rightarrow> Inr (P c)) slots
     = (if reads_absent (\<lambda>c. \<not> P c) slots then Inl TypeError
        else Inr (\<forall>crd\<in>set slots. \<exists>c. crd = Some c \<and> P c))"
  by (induction slots) (auto split: option.splits)

lemma find_first_slots:
  "find_first (\<lambda>crd. case crd of None \<Rightarrow> Inl TypeError | Some c \<Rightarrow> Inr (P c)) slots
     = (if reads_absent P slots then Inl TypeError
        else Inr (find (\<lambda>crd. \<exists>c. crd = Some c \<and> P c) slots))"
  by (induction slots) (auto split: option.splits)

lemma pairs_count_absent: "None \<in> set cards \<Longrightarrow> pairs_count cards rc = Inl TypeError"
  by (induction cards arbitrary: rc) (auto split: option.splits)

lemma runs_groups_absent: "None \<in> set cards \<Longrightarrow> runs_groups cards g = Inl TypeError"
proof (induction cards arbitrary: g)
  case Nil
  then show ?case by simp
next
  case (Cons crd cards)
  show ?case
  proof (cases crd)
    case None
    then show ?thesis by (simp add: getNumericRank_def)
  next
    case (Some c)
    with Cons show ?thesis
      by (simp add: getNumericRank_Some)
  qed
qed

lemma fifteens_combo_absent:
  assumes "js_index cards j = None" and "msk AND shl1 j \<noteq> 0"
  shows "j \<in> set is \<Longrightarrow> fifteens_combo cards msk is acc = Inl TypeError"
proof (induction "is" arbitrary: acc)
  case Nil
  then show ?case by simp
next
  case (Cons i "is")
  obtain combo sm where acc: "acc = (combo, sm)" by (cases acc)
  show ?case
  proof (cases "i = j")
    case True
    with assms show ?thesis
      by (simp add: acc getCardValue_def)
  next
    case False
    with Cons have ih: "\<And>acc. fifteens_combo cards msk is acc = Inl TypeError"
      by simp
    show ?thesis
      by (cases "getCardValue (js_index cards i)") (simp_all add: acc ih js_error_TypeError)
  qed
qed

lemma fifteens_masks_absent:
  assumes "j < length cards" and "js_index cards j = None"
  shows "\<exists>m\<in>set ms. m AND shl1 j \<noteq> 0 \<Longrightarrow> fifteens_masks cards ms acc = Inl TypeError"
proof (induction ms arbitrary: acc)
  case Nil
  then show ?case by simp
next
  case (Cons m ms)
  show ?case
  proof (cases "m AND shl1 j \<noteq> 0")
    case True
    have "fifteens_combo cards m [0 ..< length cards] ([], Num 0) = Inl TypeError"
      using fifteens_combo_absent [OF assms(2) True, of "[0 ..< length cards]"] assms(1) by simp
    then show ?thesis by simp
  next
    case False
    with Cons have ih: "\<And>acc. fifteens_masks cards ms acc = Inl TypeError"
      by auto
    show ?thesis
      by (cases "fifteens_combo cards m [0 ..< length cards] ([], Num 0)")
         (auto simp: ih js_error_TypeError)
  qed
qed

lemma scoreFifteens_absent:
  assumes "length cards = 5" and "None \<in> set cards"
  shows "scoreFifteens cards = Inl TypeError"
proof -
  from assms(2) obtain j where j: "j < length cards" "cards ! j = None"
    by (auto simp: in_set_conv_nth)
  then have idx: "js_index cards j = None"
    by (simp add: js_index_def)
  from j(1) assms(1) have j5: "j < 5" by simp
  then have "(2 ^ j :: int) \<in> set [1 .. shl1 (length cards) - 1]"
  proof -
    from j5 have "(2 ^ j :: int) \<le> 2 ^ 4"
      by (intro power_increasing) simp_all
    then show ?thesis
      by (simp add: assms(1) shl1_def)
  qed
  moreover have "(2 ^ j :: int) AND shl1 j \<noteq> 0"
    using j5 by (simp add: shl1_small)
  ultimately have "\<exists>m\<in>set [1 .. shl1 (length cards) - 1]. m AND shl1 j \<noteq> 0"
    by blast
  from fifteens_masks_absent [OF j(1) idx this] show ?thesis
    by (simp add: scoreFifteens_def Let_def)
qed

lemma scorePairs_absent: "None \<in> set cards \<Longrightarrow> scorePairs cards = Inl TypeError"
  by (simp add: scorePairs_def pairs_count_absent)

lemma scoreRuns_absent: "length cards = 5 \<Longrightarrow> None \<in> set cards \<Longrightarrow> scoreRuns cards = Inl TypeError"
  by (simp add: scoreRuns_def runs_groups_absent)

lemma scoreFlush_slots:
  assumes "length cards = 5" and "None \<in> set cards"
  shows "scoreFlush cards isCrib =
           (if reads_absent (\<lambda>c. \<forall>c0. cards ! 0 = Some c0 \<longrightarrow> suit c \<noteq> suit c0) (take 4 cards)
            then Inl TypeError
            else Inr \<lparr>points =
                   (if (\<forall>crd\<in>set (take 4 cards). \<exists>c c0. crd = Some c \<and> cards ! 0 = Some c0
                                                      \<and> suit c = suit c0) \<and> \<not> isCrib
                    then 4 else 0)\<rparr>)"
proof -
  from assms(1) obtain a b c d e where cards: "cards = [a, b, c, d, e]"
    by (rule length5_cases)
  have hc: "slice cards 0 (Some 4) = [a, b, c, d]" and tk: "take 4 cards = [a, b, c, d]"
    and cut: "js_index cards 4 = e" and first: "js_index [a, b, c, d] 0 = a"
    and len: "\<not> length cards < 4" and c0: "cards ! 0 = a"
    by (simp_all add: cards slice_def js_index_def)
  show ?thesis
  proof (cases a)
    case None
    then show ?thesis
      unfolding scoreFlush_def Let_def hc tk cut first c0
      using len by simp
  next
    case (Some c0)
    have stop: "(\<lambda>c. \<forall>c0'. a = Some c0' \<longrightarrow> suit c \<noteq> suit c0') = (\<lambda>c. \<not> suit c = suit c0)"
      by (simp add: Some)
    show ?thesis
    proof (cases "reads_absent (\<lambda>c. \<not> suit c = suit c0) [a, b, c, d]")
      case True
      then show ?thesis
        unfolding scoreFlush_def Let_def hc tk cut first c0 stop every_slots
        using len by (simp add: Some)
    next
      case False
      show ?thesis
      proof (cases "\<forall>crd\<in>set [a, b, c, d]. \<exists>c. crd = Some c \<and> suit c = suit c0")
        case True
        with assms(2) have "e = None"
          by (auto simp: cards)
        with True False show ?thesis
          unfolding scoreFlush_def Let_def hc tk cut first c0 stop every_slots
          using len by (simp add: Some)
      next
        case no: False
        with False show ?thesis
          unfolding scoreFlush_def Let_def hc tk cut first c0 stop every_slots
          using len by (auto simp: Some)
      qed
    qed
  qed
qed

lemma scoreNobs_slots:
  assumes "length cards = 5"
  shows "(cards ! 4 = None \<longrightarrow> scoreNobs cards = Inr \<lparr>points = 0, nobs_card = None\<rparr>)
       \<and> (cards ! 4 \<noteq> None \<and> reads_absent (\<lambda>c. rank c = str ''J'') (take 4 cards)
            \<longrightarrow> scoreNobs cards = Inl TypeError)
       \<and> (cards ! 4 \<noteq> None \<and> \<not> reads_absent (\<lambda>c. rank c = str ''J'') (take 4 cards)
            \<longrightarrow> (\<exists>r. scoreNobs cards = Inr r))"
proof -
  from assms(1) obtain a b c d e where cards: "cards = [a, b, c, d, e]"
    by (rule length5_cases)
  have hc: "slice cards 0 (Some 4) = [a, b, c, d]" and tk: "take 4 cards = [a, b, c, d]"
    and cut: "js_index cards 4 = e" and len: "\<not> length cards < 5" and c4: "cards ! 4 = e"
    by (simp_all add: cards slice_def js_index_def)
  show ?thesis
    unfolding scoreNobs_def Let_def hc tk cut c4 find_first_slots
    using len by (auto split: option.splits)
qed

text \<open>
  C3, as the code has it. On five slots of which one is empty, the fifteens, pairs and runs
  evaluators throw a TypeError. The flush evaluator throws when its pass over the four hand
  slots reads an empty slot before a card of another suit than the first; otherwise it
  returns a result, in which an empty cut slot counts as a cut card of another suit (4
  points for a hand flush in hand mode, else 0). The nobs evaluator returns 0 points when
  the cut slot is empty; with a cut card it throws when its search for a Jack reads an empty
  hand slot, and returns a result otherwise. The main function returns \<open>null\<close> on such
  input and calls none of them.
\<close>

theorem sub_evaluators_absent_slot:
  assumes "length cards = 5" and "None \<in> set cards"
  shows "scoreFifteens cards = Inl TypeError
       \<and> scorePairs cards = Inl TypeError
       \<and> scoreRuns cards = Inl TypeError
       \<and> scoreFlush cards isCrib =
           (if reads_absent (\<lambda>c. \<forall>c0. cards ! 0 = Some c0 \<longrightarrow> suit c \<noteq> suit c0) (take 4 cards)
            then Inl TypeError
            else Inr \<lparr>points =
                   (if (\<forall>crd\<in>set (take 4 cards). \<exists>c c0. crd = Some c \<and> cards ! 0 = Some c0
                                                      \<and> suit c = suit c0) \<and> \<not> isCrib
                    then 4 else 0)\<rparr>)
       \<and> (cards ! 4 = None \<longrightarrow> scoreNobs cards = Inr \<lparr>points = 0, nobs_card = None\<rparr>)
       \<and> (cards ! 4 \<noteq> None \<and> reads_absent (\<lambda>c. rank c = str ''J'') (take 4 cards)
            \<longrightarrow> scoreNobs cards = Inl TypeError)
       \<and> (cards ! 4 \<noteq> None \<and> \<not> reads_absent (\<lambda>c. rank c = str ''J'') (take 4 cards)
            \<longrightarrow> (\<exists>r. scoreNobs cards = Inr r))
       \<and> scoreHand (Some cards) isCrib = Inr None"
proof -
  have "scoreHand (Some cards) isCrib = Inr None"
    using assms(2) by (simp add: scoreHand_def list_ex_iff)
  with scoreFifteens_absent [OF assms] scorePairs_absent [OF assms(2)] scoreRuns_absent [OF assms]
    scoreFlush_slots [OF assms, of isCrib] scoreNobs_slots [OF assms(1)]
  show ?thesis by simp
qed

theorem sub_evaluators_absent_slot_witness:
  "scoreFifteens absent_cut = Inl TypeError \<and> scorePairs absent_cut = Inl TypeError
   \<and> scoreRuns absent_cut = Inl TypeError \<and> scoreFlush absent_cut False = Inr \<lparr>points = 4\<rparr>
   \<and> scoreFlush absent_cut True = Inr \<lparr>points = 0\<rparr>
   \<and> scoreNobs absent_cut = Inr \<lparr>points = 0, nobs_card = None\<rparr>
   \<and> scoreFlush absent_first False = Inl TypeError \<and> scoreNobs absent_first = Inl TypeError
   \<and> scoreHand (Some absent_cut) False = Inr None"
proof -
  have c: "length absent_cut = 5" "None \<in> set absent_cut"
    and f: "length absent_first = 5" "None \<in> set absent_first"
    by (simp_all add: absent_cut_def absent_first_def)
  from sub_evaluators_absent_slot [OF c, of False] sub_evaluators_absent_slot [OF c, of True]
       sub_evaluators_absent_slot [OF f, of False]
  show ?thesis
    by (simp add: absent_cut_def absent_first_def card_of_def suit_defs)
qed

text \<open>
  C3, as stated, fails: with an empty first slot the fifteens evaluator throws instead of
  returning zero points.
\<close>

theorem scoreFifteens_absent_slot_throws:
  "scoreFifteens absent_first = Inl TypeError"
  using scoreFifteens_absent [of absent_first] by (simp add: absent_first_def)


section \<open>Scenario B\<close>

lemma upto_1_31:
  "[1 .. 31 :: int] = [1, 2, 3, 4, 5, 6, 7, 8, 9, 10, 11, 12, 13, 14, 15, 16, 17, 18, 19, 20,
                      21, 22, 23, 24, 25, 26, 27, 28, 29, 30, 31]"
  by (simp add: upto.simps)

lemma upt_0_5: "[0 ..< 5] = [0, 1, 2, 3, 4]"
  by (simp add: upt_rec)

lemma fifteenValue_card_of:
  "fifteenValue (card_of ''A'' s) = 1" "fifteenValue (card_of ''2'' s) = 2"
  "fifteenValue (card_of ''3'' s) = 3" "fifteenValue (card_of ''4'' s) = 4"
  "fifteenValue (card_of ''5'' s) = 5" "fifteenValue (card_of ''6'' s) = 6"
  "fifteenValue (card_of ''7'' s) = 7" "fifteenValue (card_of ''8'' s) = 8"
  "fifteenValue (card_of ''9'' s) = 9" "fifteenValue (card_of ''10'' s) = 10"
  "fifteenValue (card_of ''J'' s) = 10" "fifteenValue (card_of ''Q'' s) = 10"
  "fifteenValue (card_of ''K'' s) = 10"
  by (simp_all add: fifteenValue_def card_of_def RANKS_def)

lemma deck_scenario_B: "set scenario_B \<subseteq> set DECK"
  using hand_scenario_B by (simp add: hand_def)

lemma fifteens_masks_scenario_B:
  "filter (\<lambda>m. mask_sum scenario_B m = 15) [1 .. shl1 (length scenario_B) - 1] = [15, 28]"
  by (simp add: scenario_B_def shl1_def upto_1_31 mask_sum_def mask_indices_def upt_0_5
        fifteenValue_card_of)

lemma scoreFifteens_scenario_B:
  "scoreFifteens (map Some scenario_B) =
     Inr \<lparr>points = 4,
          combinations =
            [map (\<lambda>c. formatCard (Some c))
               [card_of ''3'' spades, card_of ''3'' hearts, card_of ''4'' spades, card_of ''5'' spades],
             map (\<lambda>c. formatCard (Some c))
               [card_of ''4'' spades, card_of ''5'' spades, card_of ''6'' spades]]\<rparr>"
  unfolding scoreFifteens_present [OF deck_scenario_B] fifteens_masks_scenario_B
  by (simp add: scenario_B_def mask_indices_def shl1_def upt_0_5)

lemma string_index_ranks:
  "string_index (str ''A'') = None" "string_index (str ''2'') = Some 2"
  "string_index (str ''3'') = Some 3" "string_index (str ''4'') = Some 4"
  "string_index (str ''5'') = Some 5" "string_index (str ''6'') = Some 6"
  "string_index (str ''7'') = Some 7" "string_index (str ''8'') = Some 8"
  "string_index (str ''9'') = Some 9" "string_index (str ''10'') = Some 10"
  "string_index (str ''J'') = None" "string_index (str ''Q'') = None"
  "string_index (str ''K'') = None"
  by (simp_all add: string_index_def str_def)

lemma rank_card_of: "rank (card_of r s) = str r" "suit (card_of r s) = s"
  by (simp_all add: card_of_def)

lemma scorePairs_scenario_B:
  "scorePairs (map Some scenario_B) = Inr \<lparr>points = 2, pairs_found = [str ''Pair of 3s'']\<rparr>"
proof -
  have t: "rank_tally scenario_B [] = [(str ''3'', 2), (str ''4'', 1), (str ''5'', 1), (str ''6'', 1)]"
    by (simp add: rank_tally_def scenario_B_def rank_card_of)
  have e: "own_entries string_index [(str ''3'', 2 :: int), (str ''4'', 1), (str ''5'', 1), (str ''6'', 1)]
             = [(str ''3'', 2), (str ''4'', 1), (str ''5'', 1), (str ''6'', 1)]"
    by (simp add: own_entries_def string_index_ranks)
  have l: "str ''Pair of '' @ str ''3'' @ str ''s'' = str ''Pair of 3s''"
    by (simp add: str_def)
  show ?thesis
    by (simp add: scorePairs_def pairs_count_present t e l)
qed

lemma numericRank_card_of:
  "numericRank (card_of ''A'' s) = Num 1" "numericRank (card_of ''2'' s) = Num 2"
  "numericRank (card_of ''3'' s) = Num 3" "numericRank (card_of ''4'' s) = Num 4"
  "numericRank (card_of ''5'' s) = Num 5" "numericRank (card_of ''6'' s) = Num 6"
  "numericRank (card_of ''7'' s) = Num 7" "numericRank (card_of ''8'' s) = Num 8"
  "numericRank (card_of ''9'' s) = Num 9" "numericRank (card_of ''10'' s) = Num 10"
  "numericRank (card_of ''J'' s) = Num 11" "numericRank (card_of ''Q'' s) = Num 12"
  "numericRank (card_of ''K'' s) = Num 13"
  by (simp_all add: numericRank_def getNumericRank_def card_of_def parseInt_ranks)

lemma scoreRuns_scenario_B:
  "scoreRuns (map Some scenario_B) =
     Inr \<lparr>points = 8,
          runs_found = [\<lparr>run_length = 4, multiplier = 2,
                         run_cards = map (\<lambda>c. formatCard (Some c)) scenario_B\<rparr>]\<rparr>"
proof -
  define g where "g = [(Num 3, [Some (card_of ''3'' spades), Some (card_of ''3'' hearts)]),
                       (Num 4, [Some (card_of ''4'' spades)]),
                       (Num 5, [Some (card_of ''5'' spades)]),
                       (Num 6, [Some (card_of ''6'' spades)])]"
  have gc: "group_cards scenario_B [] = g"
    by (simp add: group_cards_def scenario_B_def numericRank_card_of g_def)
  have e: "own_entries number_index g = g"
    by (simp add: own_entries_def number_index_def g_def)
  have sr: "sorted_ranks g = [Num 3, Num 4, Num 5, Num 6]"
    unfolding sorted_ranks_def e
    by (simp add: g_def js_sort_def SortCompare_def)
  have w5: "first_window 5 [Num 3, Num 4, Num 5, Num 6] = None"
    by (simp add: first_window_def)
  have w4: "first_window 4 [Num 3, Num 4, Num 5, Num 6] = Some 0"
    by (simp add: first_window_def window_found_def)
  have u: "[0 ..< 4] = [0, 1, 2, 3]"
    by (simp add: upt_rec)
  have bw: "best_window g [Num 3, Num 4, Num 5, Num 6]
              = Some \<lparr>run_length = 4, multiplier = 2, run_ranks = [Num 3, Num 4, Num 5, Num 6]\<rparr>"
    by (simp add: best_window_def w5 w4 window_run_def u group_size_def g_def)
  have "3 \<le> length scenario_B"
    by (simp add: scenario_B_def)
  from scoreRuns_present [OF this] show ?thesis
    unfolding gc sr bw
    by (simp add: runs_report_def group_list_def g_def scenario_B_def)
qed

lemma scoreFlush_scenario_B: "scoreFlush (map Some scenario_B) isCrib = Inr \<lparr>points = 0\<rparr>"
  by (simp add: scoreFlush_def scenario_B_def slice_def js_index_def rank_card_of suit_defs)

lemma scoreNobs_scenario_B: "scoreNobs (map Some scenario_B) = Inr \<lparr>points = 0, nobs_card = None\<rparr>"
  by (simp add: scoreNobs_def scenario_B_def slice_def js_index_def rank_card_of)

lemma scoreHand_scenario_B:
  "scoreHand (Some (map Some scenario_B)) False =
     Inr (Some \<lparr>total = 14,
                fifteens = \<lparr>points = 4,
                   combinations =
                     [map (\<lambda>c. formatCard (Some c))
                        [card_of ''3'' spades, card_of ''3'' hearts, card_of ''4'' spades,
                         card_of ''5'' spades],
                      map (\<lambda>c. formatCard (Some c))
                        [card_of ''4'' spades, card_of ''5'' spades, card_of ''6'' spades]]\<rparr>,
                pairs = \<lparr>points = 2, pairs_found = [str ''Pair of 3s'']\<rparr>,
                runs = \<lparr>points = 8,
                   runs_found = [\<lparr>run_length = 4, multiplier = 2,
                                  run_cards = map (\<lambda>c. formatCard (Some c)) scenario_B\<rparr>]\<rparr>,
                flush = \<lparr>points = 0\<rparr>,
                nobs = \<lparr>points = 0, nobs_card = None\<rparr>\<rparr>)"
proof -
  have "length (map Some scenario_B) = 5" "\<not> list_ex (\<lambda>c. c = None) (map Some scenario_B)"
    by (simp_all add: scenario_B_def)
  then show ?thesis
    unfolding scoreHand_def
    by (simp only: option.case if_False simp_thms scoreFifteens_scenario_B scorePairs_scenario_B
          scoreRuns_scenario_B scoreFlush_scenario_B scoreNobs_scenario_B sum.case)
       simp
qed

text \<open>
  C2, as the code has it. The hand 3 of spades, 3 of hearts, 4 of spades, 5 of spades with
  the cut 6 of spades scores 14 in hand mode: fifteens 4 (3+3+4+5 and 4+5+6), pairs 2,
  runs 8 (one run of length 4 with multiplier 2), flush 0 (the 3 of hearts is not a spade)
  and nobs 0.
\<close>

theorem scenario_B_scores_14:
  "breakdown (scoreHand (Some (map Some scenario_B)) False) = [14, 4, 2, 8, 0, 0]
   \<and> map_sum id (map_option (\<lambda>rep. map (\<lambda>r. (run_length r, multiplier r)) (runs_found (runs rep))))
        (scoreHand (Some (map Some scenario_B)) False) = Inr (Some [(4, 2)])"
  by (simp add: scoreHand_scenario_B breakdown_def)

theorem scenario_B_scores_14_witness:
  "hd (breakdown (scoreHand (Some (map Some scenario_B)) False)) = 14
   \<and> sum_list (tl (breakdown (scoreHand (Some (map Some scenario_B)) False))) = 14"
  using scenario_B_scores_14 by simp

text \<open>C2, as stated (total 15 with fifteens 0 and flush 5), fails.\<close>

theorem scenario_B_not_15:
  "breakdown (scoreHand (Some (map Some scenario_B)) False) \<noteq> [15, 0, 2, 8, 5, 0]"
  by (simp add: scoreHand_scenario_B breakdown_def)

end
